theory Spec2Isabelle
  imports Main "HOL-Library.Multiset"
begin

section \<open>The comment forest of asyncpraw (models/comment\_forest.py)\<close>

text \<open>
  The Python objects are mutable and shared: a \<^verbatim>\<open>MoreComments\<close> keeps in
  \<^verbatim>\<open>_remove_from\<close> a reference to the very list it sits in, the submission's
  \<^verbatim>\<open>_comments_by_id\<close> refers to comments that are also elements of reply lists.
  The embedding therefore uses an explicit store: objects live at addresses, Python
  lists live at list references, and every field holding an object or a list holds
  its address.
\<close>

subsection \<open>Data model\<close>

type_synonym addr = nat
type_synonym lref = nat

text \<open>
  The two kinds of node. \<open>replies\<close> is the list \<^verbatim>\<open>comment.replies._comments\<close>;
  \<open>submission\<close> tells whether the back-reference to the discussion has been set;
  \<open>mcount\<close> is the field \<^verbatim>\<open>count\<close> of a \<^verbatim>\<open>MoreComments\<close>, the number
  of pending children.
\<close>

datatype node =
    Comment (name: string) (parent_id: string) (is_root: bool) (replies: lref)
      (submission: bool)
  | MoreComments (name: string) (mcount: nat) (children: "string list")
      (remove_from: "lref option") (submission: bool)

datatype error =
    DuplicateReplaceException
  | AssertionError string
  | ValueError
  | TypeError
  | AttributeError
  | IndexError
  | FetchFailure

text \<open>
  The store. \<open>comments_by_id\<close> is \<^verbatim>\<open>submission._comments_by_id\<close> of the one
  discussion the forest belongs to; \<open>fetched\<close> logs the placeholders the fetch
  collaborator was called on, in call order.
\<close>

record state =
  objs :: "addr \<Rightarrow> node"
  lists :: "lref \<Rightarrow> addr list"
  next_obj :: addr
  next_list :: lref
  comments_by_id :: "string \<rightharpoonup> addr"
  fetched :: "addr list"

text \<open>A \<^verbatim>\<open>CommentForest\<close>: \<^verbatim>\<open>self._comments\<close> is a list or \<^verbatim>\<open>None\<close>.\<close>

record comment_forest =
  comments :: "lref option"

text \<open>
  A call either raises (\<open>Inl\<close>, with the state at the moment of the raise) or returns
  a value (\<open>Inr\<close>, with the state it leaves behind).
\<close>

type_synonym 'a result = "(error \<times> state) + ('a \<times> state)"

definition outcome_state :: "'a result \<Rightarrow> state" where
  "outcome_state r = (case r of Inl (e, s) \<Rightarrow> s | Inr (v, s) \<Rightarrow> s)"

subsection \<open>Elementary operations on the store\<close>

definition alloc_obj :: "node \<Rightarrow> state \<Rightarrow> addr \<times> state" where
  "alloc_obj n s =
     (next_obj s, s\<lparr>objs := (objs s)(next_obj s := n), next_obj := Suc (next_obj s)\<rparr>)"

definition alloc_list :: "addr list \<Rightarrow> state \<Rightarrow> lref \<times> state" where
  "alloc_list xs s =
     (next_list s, s\<lparr>lists := (lists s)(next_list s := xs), next_list := Suc (next_list s)\<rparr>)"

definition list_append :: "state \<Rightarrow> lref \<Rightarrow> addr \<Rightarrow> state" where
  "list_append s l a = s\<lparr>lists := (lists s)(l := lists s l @ [a])\<rparr>"

text \<open>
  \<^verbatim>\<open>lst.remove(x)\<close>: the first element equal to \<open>x\<close> goes, and ValueError is raised
  when there is none. Nodes are compared by object identity (the address).
\<close>

definition list_remove :: "state \<Rightarrow> lref \<Rightarrow> addr \<Rightarrow> unit result" where
  "list_remove s l a =
     (if a \<in> set (lists s l)
      then Inr ((), s\<lparr>lists := (lists s)(l := remove1 a (lists s l))\<rparr>)
      else Inl (ValueError, s))"

definition is_more :: "state \<Rightarrow> addr \<Rightarrow> bool" where
  "is_more s a = (case objs s a of MoreComments _ _ _ _ _ \<Rightarrow> True | Comment _ _ _ _ _ \<Rightarrow> False)"

definition set_remove_from :: "state \<Rightarrow> addr \<Rightarrow> lref \<Rightarrow> state" where
  "set_remove_from s a l =
     (case objs s a of
        MoreComments n c ch _ sb \<Rightarrow> s\<lparr>objs := (objs s)(a := MoreComments n c ch (Some l) sb)\<rparr>
      | Comment _ _ _ _ _ \<Rightarrow> s)"

text \<open>
  Modelled from the spec: the assignment \<^verbatim>\<open>node.submission = self._submission\<close>. The
  classes Comment and MoreComments are not part of the sources at hand. For a Comment the
  spec says that attaching it to the discussion "sets the inserted Comment's discussion
  back-reference and registers it in the Identity Index"; for a placeholder the
  assignment only stores the back-reference.
\<close>

definition set_submission :: "state \<Rightarrow> addr \<Rightarrow> state" where
  "set_submission s a =
     (case objs s a of
        Comment n p r l _ \<Rightarrow>
          s\<lparr>objs := (objs s)(a := Comment n p r l True),
            comments_by_id := (comments_by_id s)(n \<mapsto> a)\<rparr>
      | MoreComments n c ch rf _ \<Rightarrow>
          s\<lparr>objs := (objs s)(a := MoreComments n c ch rf True)\<rparr>)"

subsection \<open>The priority collection: Python's heapq\<close>

text \<open>
  \<^verbatim>\<open>heappush\<close> and \<^verbatim>\<open>heappop\<close> of the standard module heapq, on a Python list,
  with the comparison \<open>lt\<close> standing for the elements' \<^verbatim>\<open>__lt__\<close>. The positions
  read are inside the list at every call heapq itself makes.
\<close>

function siftdown_loop ::
  "('a \<Rightarrow> 'a \<Rightarrow> bool) \<Rightarrow> 'a list \<Rightarrow> 'a \<Rightarrow> nat \<Rightarrow> nat \<Rightarrow> 'a list" where
  "siftdown_loop lt heap newitem startpos pos =
     (if pos > startpos then
        (let parentpos = (pos - 1) div 2; parent = heap ! parentpos in
         if lt newitem parent
         then siftdown_loop lt (heap[pos := parent]) newitem startpos parentpos
         else heap[pos := newitem])
      else heap[pos := newitem])"
  by pat_completeness auto
termination
  by (relation "measure (\<lambda>(lt, heap, newitem, startpos, pos). pos)") auto

definition siftdown :: "('a \<Rightarrow> 'a \<Rightarrow> bool) \<Rightarrow> 'a list \<Rightarrow> nat \<Rightarrow> nat \<Rightarrow> 'a list" where
  "siftdown lt heap startpos pos = siftdown_loop lt heap (heap ! pos) startpos pos"

function siftup_loop :: "('a \<Rightarrow> 'a \<Rightarrow> bool) \<Rightarrow> 'a list \<Rightarrow> nat \<Rightarrow> 'a list \<times> nat" where
  "siftup_loop lt heap pos =
     (let childpos = 2 * pos + 1 in
      if childpos < length heap then
        (let rightpos = childpos + 1;
             childpos' = (if rightpos < length heap \<and> \<not> lt (heap ! childpos) (heap ! rightpos)
                          then rightpos else childpos)
         in siftup_loop lt (heap[pos := heap ! childpos']) childpos')
      else (heap, pos))"
  by pat_completeness auto
termination
  by (relation "measure (\<lambda>(lt, heap, pos). length heap - pos)") (auto simp: Let_def)

definition siftup :: "('a \<Rightarrow> 'a \<Rightarrow> bool) \<Rightarrow> 'a list \<Rightarrow> nat \<Rightarrow> 'a list" where
  "siftup lt heap pos =
     (let newitem = heap ! pos; (heap', pos') = siftup_loop lt heap pos
      in siftdown lt (heap'[pos' := newitem]) pos pos')"

definition heappush :: "('a \<Rightarrow> 'a \<Rightarrow> bool) \<Rightarrow> 'a list \<Rightarrow> 'a \<Rightarrow> 'a list" where
  "heappush lt heap item = siftdown lt (heap @ [item]) 0 (length heap)"

text \<open>\<^verbatim>\<open>heappop\<close> raises IndexError on an empty list: the result \<open>None\<close>.\<close>

definition heappop :: "('a \<Rightarrow> 'a \<Rightarrow> bool) \<Rightarrow> 'a list \<Rightarrow> ('a \<times> 'a list) option" where
  "heappop lt heap =
     (if heap = [] then None
      else (let lastelt = last heap; heap' = butlast heap in
            if heap' \<noteq> [] then Some (heap' ! 0, siftup lt (heap'[0 := lastelt]) 0)
            else Some (lastelt, heap')))"

text \<open>
  Modelled from the spec: \<^verbatim>\<open>MoreComments.__lt__\<close> (models/reddit/more.py is not
  part of the sources at hand). The spec gives the pending child count as the priority
  key, descending: the placeholder with more pending children is the smaller element
  of the min-heap.
\<close>

definition more_lt :: "state \<Rightarrow> addr \<Rightarrow> addr \<Rightarrow> bool" where
  "more_lt s a b = (mcount (objs s a) > mcount (objs s b))"

subsection \<open>\_gather\_more\_comments\<close>

text \<open>
  The loop over \<^verbatim>\<open>queue\<close>; the object graph may be cyclic, so the loop carries fuel and
  \<open>None\<close> means that the fuel did not suffice. \<^verbatim>\<open>parent_tree or tree\<close> takes
  \<^verbatim>\<open>tree\<close> when \<^verbatim>\<open>parent_tree\<close> is \<^verbatim>\<open>None\<close> and also when it is an empty list.
\<close>

definition fallback :: "state \<Rightarrow> lref \<Rightarrow> lref option \<Rightarrow> lref" where
  "fallback s tree parent_tree =
     (case parent_tree of
        None \<Rightarrow> tree
      | Some pt \<Rightarrow> if lists s pt \<noteq> [] then pt else tree)"

fun gather_loop ::
  "nat \<Rightarrow> lref \<Rightarrow> lref option \<Rightarrow> (addr option \<times> addr) list \<Rightarrow> addr list \<Rightarrow> state
     \<Rightarrow> (addr list \<times> state) option" where
  "gather_loop 0 tree parent_tree queue more_comments s = None"
| "gather_loop (Suc n) tree parent_tree [] more_comments s = Some (more_comments, s)"
| "gather_loop (Suc n) tree parent_tree ((parent, comment) # queue) more_comments s =
     (case objs s comment of
        MoreComments _ _ _ _ _ \<Rightarrow>
          (let more_comments' = heappush (more_lt s) more_comments comment;
               target = (case parent of
                           Some p \<Rightarrow> replies (objs s p)
                         | None \<Rightarrow> fallback s tree parent_tree)
           in gather_loop n tree parent_tree queue more_comments'
                (set_remove_from s comment target))
      | Comment _ _ _ r _ \<Rightarrow>
          gather_loop n tree parent_tree
            (queue @ map (\<lambda>item. (Some comment, item)) (lists s r)) more_comments s)"

definition gather_more_comments ::
  "nat \<Rightarrow> lref option \<Rightarrow> lref option \<Rightarrow> state \<Rightarrow> (addr list) result option" where
  "gather_more_comments fuel tree parent_tree s =
     (case tree of
        None \<Rightarrow> Some (Inl (TypeError, s))
      | Some t \<Rightarrow>
          map_option Inr
            (gather_loop fuel t parent_tree (map (\<lambda>x. (None, x)) (lists s t)) [] s))"

subsection \<open>\_\_len\_\_, \_insert\_comment and list\<close>

definition len :: "state \<Rightarrow> comment_forest \<Rightarrow> nat" where
  "len s self =
     (case comments self of
        None \<Rightarrow> 0
      | Some l \<Rightarrow> if lists s l \<noteq> [] then length (lists s l) else 0)"

definition assert_message :: string where
  "assert_message =
     ''Async PRAW Error occurred. Please file a bug report and include the code that caused the error.''"

definition insert_comment :: "comment_forest \<Rightarrow> addr \<Rightarrow> state \<Rightarrow> unit result" where
  "insert_comment self comment s =
     (if name (objs s comment) \<in> dom (comments_by_id s)
      then Inl (DuplicateReplaceException, s)
      else
        (let s1 = set_submission s comment in
         case objs s1 comment of
           MoreComments _ _ _ _ _ \<Rightarrow>
             (case comments self of
                None \<Rightarrow> Inl (AttributeError, s1)
              | Some l \<Rightarrow> Inr ((), list_append s1 l comment))
         | Comment _ p root _ _ \<Rightarrow>
             if root then
               (case comments self of
                  None \<Rightarrow> Inl (AttributeError, s1)
                | Some l \<Rightarrow> Inr ((), list_append s1 l comment))
             else
               (case comments_by_id s1 p of
                  None \<Rightarrow> Inl (AssertionError assert_message, s1)
                | Some parent \<Rightarrow>
                    (case objs s1 parent of
                       Comment _ _ _ r _ \<Rightarrow> Inr ((), list_append s1 r comment)
                     | MoreComments _ _ _ _ _ \<Rightarrow> Inl (AttributeError, s1)))))"

fun list_loop :: "nat \<Rightarrow> state \<Rightarrow> addr list \<Rightarrow> addr list \<Rightarrow> addr list option" where
  "list_loop 0 s queue cs = None"
| "list_loop (Suc n) s [] cs = Some cs"
| "list_loop (Suc n) s (comment # queue) cs =
     (case objs s comment of
        MoreComments _ _ _ _ _ \<Rightarrow> list_loop n s queue (cs @ [comment])
      | Comment _ _ _ r _ \<Rightarrow> list_loop n s (queue @ lists s r) (cs @ [comment]))"

text \<open>
  \<^verbatim>\<open>list\<close>, the flattening of the forest. The state is handed back with the result, so
  that what the call leaves behind can be compared with what it found.
\<close>

definition list_flat :: "nat \<Rightarrow> comment_forest \<Rightarrow> state \<Rightarrow> (addr list) result option" where
  "list_flat fuel self s =
     (case comments self of
        None \<Rightarrow> Some (Inl (TypeError, s))
      | Some l \<Rightarrow> map_option (\<lambda>cs. Inr (cs, s)) (list_loop fuel s (lists s l) []))"

subsection \<open>The fetch collaborator\<close>

text \<open>
  Modelled from the spec: \<^verbatim>\<open>item.comments(update=False)\<close>, the fetch collaborator
  "fetch\_children(placeholder) \<rightarrow> ordered sequence of Node", which may fail with a
  transport error. Its answer is plain data (\<open>jnode\<close>); turning the data into objects
  allocates fresh nodes and fresh reply lists, and the returned sequence is a fresh list.
\<close>

datatype jnode =
    JComment string string bool "jnode list"
  | JMore string nat "string list"

type_synonym fetcher = "state \<Rightarrow> addr \<Rightarrow> error + jnode list"

fun objectify :: "jnode \<Rightarrow> state \<Rightarrow> addr \<times> state"
  and objectify_list :: "jnode list \<Rightarrow> state \<Rightarrow> addr list \<times> state" where
  "objectify (JMore n c ch) s = alloc_obj (MoreComments n c ch None False) s"
| "objectify (JComment n p root js) s =
     (let (as, s1) = objectify_list js s;
          (l, s2) = alloc_list as s1
      in alloc_obj (Comment n p root l False) s2)"
| "objectify_list [] s = ([], s)"
| "objectify_list (j # js) s =
     (let (a, s1) = objectify j s;
          (as, s2) = objectify_list js s1
      in (a # as, s2))"

definition fetch_comments :: "fetcher \<Rightarrow> addr \<Rightarrow> state \<Rightarrow> lref result" where
  "fetch_comments fetch item s =
     (let s0 = s\<lparr>fetched := fetched s @ [item]\<rparr> in
      case fetch s item of
        Inl e \<Rightarrow> Inl (e, s0)
      | Inr js \<Rightarrow>
          (let (as, s1) = objectify_list js s0 in Inr (alloc_list as s1)))"

subsection \<open>replace\_more\<close>

text \<open>
  The loops of \<^verbatim>\<open>replace_more\<close> run on fuel: the heap may be refilled forever by the
  collaborator, and the nested gather walks an object graph. \<open>None\<close> means that the
  fuel did not suffice.
\<close>

text \<open>Lines 208 to 210: the placeholders of the nested gather go to the one heap.\<close>

fun push_all :: "addr list \<Rightarrow> addr list \<Rightarrow> state \<Rightarrow> addr list \<times> state" where
  "push_all [] more_comments s = (more_comments, s)"
| "push_all (m # rest) more_comments s =
     (let s1 = set_submission s m
      in push_all rest (heappush (more_lt s1) more_comments m) s1)"

text \<open>Lines 212 and 213: the fetched nodes are inserted in the order of the answer.\<close>

fun insert_all :: "comment_forest \<Rightarrow> addr list \<Rightarrow> state \<Rightarrow> unit result" where
  "insert_all self [] s = Inr ((), s)"
| "insert_all self (comment # rest) s =
     (case insert_comment self comment s of
        Inl e \<Rightarrow> Inl e
      | Inr (u, s1) \<Rightarrow> insert_all self rest s1)"

text \<open>\<^verbatim>\<open>item._remove_from.remove(item)\<close>.\<close>

definition remove_item :: "addr \<Rightarrow> state \<Rightarrow> unit result" where
  "remove_item item s =
     (case objs s item of
        MoreComments _ _ _ rf _ \<Rightarrow>
          (case rf of
             None \<Rightarrow> Inl (AttributeError, s)
           | Some l \<Rightarrow> list_remove s l item)
      | Comment _ _ _ _ _ \<Rightarrow> Inl (AttributeError, s))"

text \<open>\<^verbatim>\<open>remaining is not None and remaining <= 0 or item.count < threshold\<close>.\<close>

definition skip_test :: "state \<Rightarrow> int option \<Rightarrow> int \<Rightarrow> addr \<Rightarrow> bool" where
  "skip_test s remaining threshold item =
     ((case remaining of None \<Rightarrow> False | Some r \<Rightarrow> r \<le> 0)
      \<or> int (mcount (objs s item)) < threshold)"

text \<open>
  The part of the loop body after the skip test (lines 203 to 216), for the popped
  \<open>item\<close> and the heap \<open>more_comments\<close> it was popped from. \<open>gfuel\<close> is the fuel of
  the nested gather.
\<close>

definition resolve ::
  "nat \<Rightarrow> fetcher \<Rightarrow> comment_forest \<Rightarrow> addr \<Rightarrow> addr list \<Rightarrow> state
     \<Rightarrow> (addr list) result option" where
  "resolve gfuel fetch self item more_comments s =
     (case fetch_comments fetch item s of
        Inl e \<Rightarrow> Some (Inl e)
      | Inr (new_comments, s1) \<Rightarrow>
          (case gather_more_comments gfuel (Some new_comments) (comments self) s1 of
             None \<Rightarrow> None
           | Some (Inl e) \<Rightarrow> Some (Inl e)
           | Some (Inr (found, s2)) \<Rightarrow>
               (let (more_comments', s3) = push_all found more_comments s2 in
                case insert_all self (lists s3 new_comments) s3 of
                  Inl e \<Rightarrow> Some (Inl e)
                | Inr (u, s4) \<Rightarrow>
                    (case remove_item item s4 of
                       Inl e \<Rightarrow> Some (Inl e)
                     | Inr (u', s5) \<Rightarrow> Some (Inr (more_comments', s5))))))"

text \<open>
  One turn of the loop (lines 197 to 216) on a heap that is not empty: the new values
  of \<^verbatim>\<open>remaining\<close>, \<^verbatim>\<open>more_comments\<close> and \<^verbatim>\<open>skipped\<close>.
\<close>

definition replace_more_step ::
  "nat \<Rightarrow> fetcher \<Rightarrow> comment_forest \<Rightarrow> int \<Rightarrow> int option \<Rightarrow> addr list \<Rightarrow> addr list
     \<Rightarrow> state \<Rightarrow> (int option \<times> addr list \<times> addr list) result option" where
  "replace_more_step gfuel fetch self threshold remaining more_comments skipped s =
     (case heappop (more_lt s) more_comments of
        None \<Rightarrow> Some (Inl (IndexError, s))
      | Some (item, more_comments1) \<Rightarrow>
          if skip_test s remaining threshold item then
            (case remove_item item s of
               Inl e \<Rightarrow> Some (Inl e)
             | Inr (u, s1) \<Rightarrow> Some (Inr ((remaining, more_comments1, skipped @ [item]), s1)))
          else
            (case resolve gfuel fetch self item more_comments1 s of
               None \<Rightarrow> None
             | Some (Inl e) \<Rightarrow> Some (Inl e)
             | Some (Inr (more_comments2, s1)) \<Rightarrow>
                 Some (Inr ((map_option (\<lambda>r. r - 1) remaining, more_comments2, skipped), s1))))"

fun replace_more_loop ::
  "nat \<Rightarrow> nat \<Rightarrow> fetcher \<Rightarrow> comment_forest \<Rightarrow> int \<Rightarrow> int option \<Rightarrow> addr list \<Rightarrow> addr list
     \<Rightarrow> state \<Rightarrow> (addr list \<times> addr list) result option" where
  "replace_more_loop 0 gfuel fetch self threshold remaining more_comments skipped s = None"
| "replace_more_loop (Suc n) gfuel fetch self threshold remaining more_comments skipped s =
     (if more_comments = [] then Some (Inr ((more_comments, skipped), s))
      else
        (case replace_more_step gfuel fetch self threshold remaining more_comments skipped s of
           None \<Rightarrow> None
         | Some (Inl e) \<Rightarrow> Some (Inl e)
         | Some (Inr ((remaining', more_comments', skipped'), s1)) \<Rightarrow>
             replace_more_loop n gfuel fetch self threshold remaining' more_comments' skipped' s1))"

text \<open>
  \<^verbatim>\<open>replace_more(limit, threshold)\<close> up to its last line: the heap and the list
  \<^verbatim>\<open>skipped\<close> at the end of the loop.
\<close>

definition replace_more_run ::
  "nat \<Rightarrow> fetcher \<Rightarrow> comment_forest \<Rightarrow> int option \<Rightarrow> int \<Rightarrow> state
     \<Rightarrow> (addr list \<times> addr list) result option" where
  "replace_more_run fuel fetch self limit threshold s =
     (case gather_more_comments fuel (comments self) None s of
        None \<Rightarrow> None
      | Some (Inl e) \<Rightarrow> Some (Inl e)
      | Some (Inr (more_comments, s1)) \<Rightarrow>
          replace_more_loop fuel fuel fetch self threshold limit more_comments [] s1)"

text \<open>The result of \<^verbatim>\<open>replace_more\<close> is \<^verbatim>\<open>more_comments + skipped\<close>.\<close>

definition replace_more ::
  "nat \<Rightarrow> fetcher \<Rightarrow> comment_forest \<Rightarrow> int option \<Rightarrow> int \<Rightarrow> state
     \<Rightarrow> (addr list) result option" where
  "replace_more fuel fetch self limit threshold s =
     (case replace_more_run fuel fetch self limit threshold s of
        None \<Rightarrow> None
      | Some (Inl e) \<Rightarrow> Some (Inl e)
      | Some (Inr ((more_comments, skipped), s1)) \<Rightarrow>
          Some (Inr (more_comments @ skipped, s1)))"

text \<open>
  Reading the outcome of a call: the value it returned, if it returned, the exception it
  raised, if it raised, and the store it ended in.
\<close>

definition returned :: "'a result option \<Rightarrow> 'a option" where
  "returned r = (case r of Some (Inr (v, s)) \<Rightarrow> Some v | _ \<Rightarrow> None)"


definition final :: "'a result option \<Rightarrow> state" where
  "final r = outcome_state (the r)"

section \<open>Forests in the store\<close>

text \<open>
  What it means for the store to hold a forest. An \<open>atree\<close> is the shape of a tree
  of nodes with the address of every node, and for a comment the reference of its list of
  replies; \<open>tree_at s t\<close> says that the store \<open>s\<close> holds the tree \<open>t\<close>, and
  \<open>forest_at s l ts\<close> that the list \<open>l\<close> holds the roots of the trees \<open>ts\<close>. A
  placeholder has no children.
\<close>

datatype atree = AMore addr | AComment addr lref "atree list"

fun root_addr :: "atree \<Rightarrow> addr" where
  "root_addr (AMore a) = a"
| "root_addr (AComment a l ts) = a"

fun count_nodes :: "atree \<Rightarrow> nat" where
  "count_nodes (AMore a) = 1"
| "count_nodes (AComment a l ts) = Suc (sum_list (map count_nodes ts))"

fun tree_at :: "state \<Rightarrow> atree \<Rightarrow> bool" where
  "tree_at s (AMore a) = is_more s a"
| "tree_at s (AComment a l ts) =
     (\<not> is_more s a \<and> replies (objs s a) = l \<and> lists s l = map root_addr ts
      \<and> (\<forall>t \<in> set ts. tree_at s t))"

definition forest_at :: "state \<Rightarrow> lref \<Rightarrow> atree list \<Rightarrow> bool" where
  "forest_at s l ts = (lists s l = map root_addr ts \<and> (\<forall>t \<in> set ts. tree_at s t))"

text \<open>The nodes of a forest, level by level, each level in its stored order.\<close>

function bfs :: "atree list \<Rightarrow> addr list" where
  "bfs [] = []"
| "bfs (AMore a # q) = a # bfs q"
| "bfs (AComment a l ts # q) = a # bfs (q @ ts)"
  by pat_completeness auto
termination
  by (relation "measure (\<lambda>q. sum_list (map count_nodes q))") auto

text \<open>
  The placeholders of a forest in the same order, each with the list it sits in; the
  trees of the queue come with the list that holds their root.
\<close>

function placeholders :: "(lref \<times> atree) list \<Rightarrow> (addr \<times> lref) list" where
  "placeholders [] = []"
| "placeholders ((l, AMore a) # q) = (a, l) # placeholders q"
| "placeholders ((l, AComment a r ts) # q) = placeholders (q @ map (Pair r) ts)"
  by pat_completeness auto
termination
  by (relation "measure (\<lambda>q. sum_list (map (count_nodes \<circ> snd) q))") (auto simp: comp_def)

text \<open>
  The nodes reached from a set of nodes by walking from a comment to its replies; a
  placeholder is reached but never entered.
\<close>

inductive_set reach :: "state \<Rightarrow> addr set \<Rightarrow> addr set" for s :: state and Q :: "addr set" where
  start: "a \<in> Q \<Longrightarrow> a \<in> reach s Q"
| reply: "c \<in> reach s Q \<Longrightarrow> objs s c = Comment n p root r sb \<Longrightarrow> a \<in> set (lists s r)
          \<Longrightarrow> a \<in> reach s Q"

section \<open>What a gather leaves behind\<close>

text \<open>
  A gather pushes the placeholders it meets, one after the other, and stores a removal
  target in each of them: \<open>push_list\<close> and \<open>set_targets\<close> are these two effects, for
  the placeholders in the order in which the queue delivers them.
\<close>

fun push_list :: "('a \<Rightarrow> 'a \<Rightarrow> bool) \<Rightarrow> 'a list \<Rightarrow> 'a list \<Rightarrow> 'a list" where
  "push_list lt [] heap = heap"
| "push_list lt (a # as) heap = push_list lt as (heappush lt heap a)"

fun set_targets :: "(addr \<times> lref) list \<Rightarrow> state \<Rightarrow> state" where
  "set_targets [] s = s"
| "set_targets ((a, l) # gs) s = set_targets gs (set_remove_from s a l)"

text \<open>
  The queue of the gather against a queue of trees: the entry \<open>(parent, comment)\<close>
  stands for the tree rooted at \<open>comment\<close>, together with the list that becomes the
  removal target of a placeholder at this place.
\<close>

definition queue_entry ::
  "state \<Rightarrow> lref \<Rightarrow> lref option \<Rightarrow> addr option \<times> addr \<Rightarrow> lref \<times> atree \<Rightarrow> bool" where
  "queue_entry s tree parent_tree qe ae =
     (snd qe = root_addr (snd ae) \<and> tree_at s (snd ae)
      \<and> (case fst qe of
            None \<Rightarrow> fst ae = fallback s tree parent_tree
          | Some p \<Rightarrow> \<not> is_more s p \<and> fst ae = replies (objs s p)))"

text \<open>
  The placeholders waiting in the heap are in order when they are pairwise distinct and
  each of them is a placeholder whose removal target holds it.
\<close>

definition pending_ok :: "state \<Rightarrow> addr list \<Rightarrow> bool" where
  "pending_ok s h =
     (distinct h
      \<and> (\<forall>a \<in> set h. is_more s a
            \<and> (\<exists>l. remove_from (objs s a) = Some l \<and> a \<in> set (lists s l))))"

text \<open>
  The heap property of the list that heapq works on, for elements compared by a key with
  the larger key first: no element has a larger key than the element at its parent
  position.
\<close>

definition heap_inv :: "('a \<Rightarrow> nat) \<Rightarrow> 'a list \<Rightarrow> bool" where
  "heap_inv k h = (\<forall>i. 0 < i \<and> i < length h \<longrightarrow> k (h ! i) \<le> k (h ! ((i - 1) div 2)))"

text \<open>
  Two facts every store built by the program satisfies. Every element of a list is an
  object that has been created (\<open>store_ok\<close>); the heap of pending placeholders has the
  heap property for the pending child counts, and its elements are placeholders that have
  been created (\<open>heap_ok\<close>).
\<close>

definition store_ok :: "state \<Rightarrow> bool" where
  "store_ok s = (\<forall>l. \<forall>a \<in> set (lists s l). a < next_obj s)"

definition heap_ok :: "state \<Rightarrow> addr list \<Rightarrow> bool" where
  "heap_ok s h =
     (heap_inv (\<lambda>a. mcount (objs s a)) h \<and> (\<forall>a \<in> set h. is_more s a \<and> a < next_obj s))"

text \<open>An answer of the collaborator that holds comments only, at every depth.\<close>

fun jclean :: "jnode \<Rightarrow> bool" where
  "jclean (JMore n c ch) = False"
| "jclean (JComment n p root js) = (\<forall>j \<in> set js. jclean j)"

text \<open>
  What creating the objects of an answer changes: objects and lists from the counters
  on, nothing below them, and the new lists hold new objects only.
\<close>

definition grown :: "state \<Rightarrow> state \<Rightarrow> bool" where
  "grown s s' =
     (next_obj s \<le> next_obj s' \<and> next_list s \<le> next_list s'
      \<and> (\<forall>b. b < next_obj s \<or> next_obj s' \<le> b \<longrightarrow> objs s' b = objs s b)
      \<and> (\<forall>k. k < next_list s \<or> next_list s' \<le> k \<longrightarrow> lists s' k = lists s k)
      \<and> (\<forall>k. next_list s \<le> k \<and> k < next_list s'
            \<longrightarrow> (\<forall>b \<in> set (lists s' k). next_obj s \<le> b \<and> b < next_obj s'))
      \<and> comments_by_id s' = comments_by_id s \<and> fetched s' = fetched s)"

text \<open>A tree whose objects and lists lie below the given counters; a tree of comments only.\<close>

fun tree_in :: "nat \<Rightarrow> nat \<Rightarrow> atree \<Rightarrow> bool" where
  "tree_in ob li (AMore a) = (a < ob)"
| "tree_in ob li (AComment a r ts) = (a < ob \<and> r < li \<and> (\<forall>t \<in> set ts. tree_in ob li t))"


text \<open>The object at an address carries the data of a node of an answer.\<close>

fun holds :: "state \<Rightarrow> addr \<Rightarrow> jnode \<Rightarrow> bool" where
  "holds s a (JMore n c ch) = (\<exists>rf sb. objs s a = MoreComments n c ch rf sb)"
| "holds s a (JComment n p root js) = (\<exists>l sb. objs s a = Comment n p root l sb)"

text \<open>
  The state of a run that resolves every placeholder. \<open>all_pending\<close>: every placeholder
  that sits in a list of the store waits in the heap, its removal target is that list, and
  the list holds it once. \<open>targets_ok\<close>: the removal targets of the heap are lists that
  have been created. \<open>index_ok\<close>: the index by identity holds comments that have been
  created. \<open>loop_ok\<close> puts them together with \<open>store_ok\<close> and \<open>pending_ok\<close>.
\<close>

definition all_pending :: "state \<Rightarrow> addr list \<Rightarrow> bool" where
  "all_pending s h =
     (\<forall>l. \<forall>a \<in> set (lists s l). is_more s a
        \<longrightarrow> a \<in> set h \<and> remove_from (objs s a) = Some l \<and> count_list (lists s l) a = 1)"

definition targets_ok :: "state \<Rightarrow> addr list \<Rightarrow> bool" where
  "targets_ok s h = (\<forall>a \<in> set h. \<forall>l. remove_from (objs s a) = Some l \<longrightarrow> l < next_list s)"

definition index_ok :: "state \<Rightarrow> bool" where
  "index_ok s = (\<forall>n a. comments_by_id s n = Some a \<longrightarrow> a < next_obj s \<and> \<not> is_more s a)"

definition loop_ok :: "state \<Rightarrow> addr list \<Rightarrow> bool" where
  "loop_ok s h = (store_ok s \<and> pending_ok s h \<and> all_pending s h \<and> targets_ok s h \<and> index_ok s)"





fun graft :: "lref \<Rightarrow> atree \<Rightarrow> atree \<Rightarrow> atree" where
  "graft l t (AMore a) = AMore a"
| "graft l t (AComment a r xs) = AComment a r (map (graft l t) xs @ (if r = l then [t] else []))"

fun remove_root :: "addr \<Rightarrow> atree list \<Rightarrow> atree list" where
  "remove_root a [] = []"
| "remove_root a (t # ts) = (if root_addr t = a then ts else t # remove_root a ts)"

fun prune :: "lref \<Rightarrow> addr \<Rightarrow> atree \<Rightarrow> atree" where
  "prune l a (AMore b) = AMore b"
| "prune l a (AComment b r xs) =
     AComment b r (if r = l then remove_root a (map (prune l a) xs) else map (prune l a) xs)"


text \<open>
  The list \<open>root\<close> holds a forest made of objects and lists that have been created, and
  the comments of the index have lists of replies that have been created.
\<close>

definition forest_ok :: "state \<Rightarrow> lref \<Rightarrow> bool" where
  "forest_ok s root =
     (root < next_list s
      \<and> (\<forall>n a. comments_by_id s n = Some a \<longrightarrow> replies (objs s a) < next_list s)
      \<and> (\<exists>ts. forest_at s root ts \<and> (\<forall>t \<in> set ts. tree_in (next_obj s) (next_list s) t)))"

section \<open>Concrete stores\<close>

text \<open>
  Small stores on which the properties below are exercised. In \<open>s_dup\<close> the identity
  \<open>c1\<close> is already indexed; in \<open>s_orphan\<close> the comment \<open>c2\<close> names a parent \<open>c1\<close>
  that is not indexed; in \<open>s_self\<close> a comment that is not a root names itself as its
  parent; in \<open>s_dup_orphan\<close> an indexed identity comes again with a parent that is not
  indexed.
\<close>

definition s_dup :: state where
  "s_dup = \<lparr>objs = (\<lambda>a. Comment ''c1'' ''t3_x'' True a False),
            lists = (\<lambda>l. []),
            next_obj = 2, next_list = 3, comments_by_id = [''c1'' \<mapsto> 0], fetched = []\<rparr>"

definition s_orphan :: state where
  "s_orphan = \<lparr>objs = (\<lambda>a. Comment ''c2'' ''c1'' False 0 False),
               lists = (\<lambda>l. []),
               next_obj = 1, next_list = 2, comments_by_id = Map.empty, fetched = []\<rparr>"

definition s_self :: state where
  "s_self = \<lparr>objs = (\<lambda>a. Comment ''c1'' ''c1'' False 0 False),
             lists = (\<lambda>l. []),
             next_obj = 1, next_list = 2, comments_by_id = Map.empty, fetched = []\<rparr>"

definition s_dup_orphan :: state where
  "s_dup_orphan = \<lparr>objs = (\<lambda>a. Comment ''c2'' ''c1'' False 0 False),
                   lists = (\<lambda>l. []),
                   next_obj = 2, next_list = 2, comments_by_id = [''c2'' \<mapsto> 1],
                   fetched = []\<rparr>"

text \<open>
  \<open>s_thr\<close>: a forest whose top-level list 0 holds two placeholders, object 0 with 3
  pending children and object 1 with 15.
\<close>

definition s_thr :: state where
  "s_thr = \<lparr>objs = (\<lambda>a. if a = 0 then MoreComments ''m0'' 3 [] (Some 0) False
                         else MoreComments ''m1'' 15 [] (Some 0) False),
            lists = (\<lambda>l. if l = 0 then [0, 1] else []),
            next_obj = 2, next_list = 1, comments_by_id = Map.empty, fetched = []\<rparr>"

definition no_children :: fetcher where
  "no_children s item = Inr []"

text \<open>
  \<open>s_flat\<close>: the top-level list 0 holds the comment 0 and the placeholder 1; list 1,
  the replies of comment 0, holds the placeholder 2.
\<close>

definition s_flat :: state where
  "s_flat = \<lparr>objs = (\<lambda>a. if a = 0 then Comment ''c0'' ''t3_x'' True 1 True
                          else MoreComments ''m'' (5 * a) [] None False),
             lists = (\<lambda>l. if l = 0 then [0, 1] else if l = 1 then [2] else []),
             next_obj = 3, next_list = 2, comments_by_id = [''c0'' \<mapsto> 0], fetched = []\<rparr>"

definition t_flat :: "atree list" where
  "t_flat = [AComment 0 1 [AMore 2], AMore 1]"

text \<open>A collaborator that answers every call with one root comment named \<open>c9\<close>.\<close>

definition one_comment :: fetcher where
  "one_comment s item = Inr [JComment ''c9'' ''t3_x'' True []]"

text \<open>
  \<open>s_tie\<close>: the top-level list 0 holds four placeholders, objects 0 to 3, each with 5
  pending children. \<open>s_nest\<close>: the top-level list 0 holds one placeholder with 5 pending
  children, and the collaborator \<open>bigger_inside\<close> answers the first call with a
  placeholder that has 100.
\<close>

definition s_tie :: state where
  "s_tie = \<lparr>objs = (\<lambda>a. MoreComments ''m'' 5 [] None False),
            lists = (\<lambda>l. if l = 0 then [0, 1, 2, 3] else []),
            next_obj = 4, next_list = 1, comments_by_id = Map.empty, fetched = []\<rparr>"

definition s_nest :: state where
  "s_nest = \<lparr>objs = (\<lambda>a. MoreComments ''m'' 5 [] None False),
             lists = (\<lambda>l. if l = 0 then [0] else []),
             next_obj = 1, next_list = 1, comments_by_id = Map.empty, fetched = []\<rparr>"

definition bigger_inside :: fetcher where
  "bigger_inside s item = (if item = 0 then Inr [JMore ''big'' 100 []] else Inr [])"

text \<open>
  \<open>s_away\<close>: the forest is the list 0 and holds one placeholder, object 1; the comment
  \<open>y\<close>, object 0 with the replies list 1, is indexed and is not part of the forest. The
  collaborator \<open>away\<close> answers the call on object 1 with a comment whose parent is
  \<open>y\<close> and whose replies hold a placeholder \<open>m2\<close>, the call on \<open>m2\<close> with a
  placeholder \<open>m3\<close>, and every other call with nothing.
\<close>

definition s_away :: state where
  "s_away = \<lparr>objs = (\<lambda>a. if a = 0 then Comment ''y'' ''t3_x'' True 1 True
                          else MoreComments ''m1'' 1 [] None False),
             lists = (\<lambda>l. if l = 0 then [1] else []),
             next_obj = 2, next_list = 2, comments_by_id = [''y'' \<mapsto> 0], fetched = []\<rparr>"

definition away :: fetcher where
  "away s item =
     (if name (objs s item) = ''m1'' then Inr [JComment ''c'' ''y'' False [JMore ''m2'' 1 []]]
      else if name (objs s item) = ''m2'' then Inr [JMore ''m3'' 1 []]
      else Inr [])"



section \<open>The fetch log\<close>

text \<open>Only the call of the collaborator writes the log of fetches.\<close>

lemma fetched_set_remove_from [simp]: "fetched (set_remove_from s a l) = fetched s"
  by (simp add: set_remove_from_def split: node.splits)

lemma fetched_set_submission [simp]: "fetched (set_submission s a) = fetched s"
  by (simp add: set_submission_def split: node.splits)

lemma fetched_list_append [simp]: "fetched (list_append s l a) = fetched s"
  by (simp add: list_append_def)

lemma fetched_alloc_obj: "alloc_obj n s = (a, s') \<Longrightarrow> fetched s' = fetched s"
  by (auto simp: alloc_obj_def)

lemma fetched_alloc_list: "alloc_list xs s = (l, s') \<Longrightarrow> fetched s' = fetched s"
  by (auto simp: alloc_list_def)

lemma fetched_objectify:
  "objectify j s = (a, s') \<Longrightarrow> fetched s' = fetched s"
  "objectify_list js s = (as, s') \<Longrightarrow> fetched s' = fetched s"
proof (induction j s and js s arbitrary: a s' and as s' rule: objectify_objectify_list.induct)
  case (1 n c ch s)
  then show ?case by (simp add: fetched_alloc_obj)
next
  case (2 n p root js s)
  obtain as s1 where o: "objectify_list js s = (as, s1)" by (cases "objectify_list js s")
  obtain l s2 where l: "alloc_list as s1 = (l, s2)" by (cases "alloc_list as s1")
  from "2.prems" o l have "alloc_obj (Comment n p root l False) s2 = (a, s')" by simp
  with "2.IH" [OF o] fetched_alloc_list [OF l] show ?case
    by (simp add: fetched_alloc_obj)
next
  case (3 s)
  then show ?case by simp
next
  case (4 j js s)
  obtain a1 s1 where o: "objectify j s = (a1, s1)" by (cases "objectify j s")
  obtain as1 s2 where l: "objectify_list js s1 = (as1, s2)" by (cases "objectify_list js s1")
  from "4.prems" o l have "s' = s2" by simp
  with "4.IH"(1) [OF o] "4.IH"(2) [OF o [symmetric] refl l] show ?case by simp
qed

lemma fetched_gather_loop:
  "gather_loop n tree pt queue h s = Some (h', s') \<Longrightarrow> fetched s' = fetched s"
proof (induction n arbitrary: queue h s)
  case 0
  then show ?case by simp
next
  case (Suc n)
  show ?case
  proof (cases queue)
    case Nil
    with Suc.prems show ?thesis by simp
  next
    case (Cons pc rest)
    obtain parent comment where pc: "pc = (parent, comment)" by (cases pc)
    show ?thesis
      using Suc.prems Suc.IH unfolding Cons pc
      by (cases "objs s comment") (auto simp: Let_def dest!: Suc.IH)
  qed
qed

lemma fetched_list_remove:
  "fetched (outcome_state (list_remove s l a)) = fetched s"
  by (simp add: list_remove_def outcome_state_def)

lemma fetched_remove_item:
  "fetched (outcome_state (remove_item item s)) = fetched s"
  by (simp add: remove_item_def outcome_state_def list_remove_def split: node.splits option.splits)

lemma fetched_insert_comment:
  "fetched (outcome_state (insert_comment self c s)) = fetched s"
  by (simp add: insert_comment_def outcome_state_def Let_def split: node.splits option.splits)

lemma fetched_insert_all:
  "fetched (outcome_state (insert_all self cs s)) = fetched s"
proof (induction cs arbitrary: s)
  case Nil
  then show ?case by (simp add: outcome_state_def)
next
  case (Cons c cs)
  show ?case
  proof (cases "insert_comment self c s")
    case (Inl e)
    with fetched_insert_comment [of self c s] show ?thesis by simp
  next
    case (Inr r)
    obtain u s1 where r: "r = (u, s1)" by (cases r)
    from fetched_insert_comment [of self c s] Inr r have "fetched s1 = fetched s"
      by (simp add: outcome_state_def)
    with Cons.IH [of s1] Inr r show ?thesis by simp
  qed
qed

lemma fetched_push_all:
  "fetched (snd (push_all ms h s)) = fetched s"
  by (induction ms arbitrary: h s) (simp_all add: Let_def)

lemma fetched_fetch_comments:
  "fetched (outcome_state (fetch_comments fetch item s)) = fetched s @ [item]"
  by (auto simp: fetch_comments_def outcome_state_def Let_def alloc_list_def
           split: sum.splits prod.splits dest!: fetched_objectify(2))

lemma fetched_resolve:
  assumes "resolve gfuel fetch self item h s = Some out"
  shows "fetched (outcome_state out) = fetched s @ [item]"
proof (cases "fetch_comments fetch item s")
  case (Inl e)
  with assms fetched_fetch_comments [of fetch item s] show ?thesis
    by (auto simp: resolve_def outcome_state_def)
next
  case (Inr r)
  obtain nc s1 where r: "r = (nc, s1)" by (cases r)
  from fetched_fetch_comments [of fetch item s] Inr r
  have f1: "fetched s1 = fetched s @ [item]" by (simp add: outcome_state_def)
  show ?thesis
  proof (cases "gather_loop gfuel nc (comments self) (map (\<lambda>x. (None, x)) (lists s1 nc)) [] s1")
    case None
    with assms Inr r show ?thesis by (simp add: resolve_def gather_more_comments_def)
  next
    case (Some g)
    obtain found s2 where g: "g = (found, s2)" by (cases g)
    from fetched_gather_loop Some g have f2: "fetched s2 = fetched s1" by blast
    obtain h' s3 where p: "push_all found h s2 = (h', s3)" by (cases "push_all found h s2")
    from fetched_push_all [of found h s2] p have f3: "fetched s3 = fetched s2" by simp
    show ?thesis
    proof (cases "insert_all self (lists s3 nc) s3")
      case (Inl e)
      with fetched_insert_all [of self "lists s3 nc" s3] assms Inr r Some g p f1 f2 f3
      show ?thesis by (auto simp: resolve_def gather_more_comments_def outcome_state_def)
    next
      case (Inr r4)
      obtain u s4 where r4: "r4 = (u, s4)" by (cases r4)
      from fetched_insert_all [of self "lists s3 nc" s3] Inr r4
      have f4: "fetched s4 = fetched s3" by (simp add: outcome_state_def)
      from assms \<open>fetch_comments fetch item s = Inr r\<close> r Some g p Inr r4
      have "out = (case remove_item item s4 of Inl e \<Rightarrow> Inl e | Inr (u', s5) \<Rightarrow> Inr (h', s5))"
        by (auto simp: resolve_def gather_more_comments_def split: sum.splits)
      with fetched_remove_item [of item s4] f1 f2 f3 f4 show ?thesis
        by (auto simp: outcome_state_def split: sum.splits)
    qed
  qed
qed



subsection \<open>One turn of the loop\<close>


lemma step_skip:
  assumes "heappop (more_lt s) more_comments = Some (item, rest)"
    and "skip_test s remaining threshold item"
  shows "replace_more_step g fetch self threshold remaining more_comments skipped s
         = Some (case remove_item item s of
                   Inl e \<Rightarrow> Inl e
                 | Inr (u, s1) \<Rightarrow> Inr ((remaining, rest, skipped @ [item]), s1))"
  using assms by (simp add: replace_more_step_def split: sum.splits)

lemma step_fetch:
  assumes "heappop (more_lt s) more_comments = Some (item, rest)"
    and "\<not> skip_test s remaining threshold item"
  shows "replace_more_step g fetch self threshold remaining more_comments skipped s
         = (case resolve g fetch self item rest s of
              None \<Rightarrow> None
            | Some (Inl e) \<Rightarrow> Some (Inl e)
            | Some (Inr (more_comments2, s1)) \<Rightarrow>
                Some (Inr ((map_option (\<lambda>r. r - 1) remaining, more_comments2, skipped), s1)))"
  using assms by (simp add: replace_more_step_def)

lemma step_fetch_log:
  assumes "heappop (more_lt s) more_comments = Some (item, rest)"
    and "\<not> skip_test s remaining threshold item"
    and "replace_more_step g fetch self threshold remaining more_comments skipped s = Some out"
  shows "fetched (outcome_state out) = fetched s @ [item]"
    and "out = Inr ((r', h', sk'), s') \<Longrightarrow> r' = map_option (\<lambda>r. r - 1) remaining \<and> sk' = skipped"
proof -
  from assms obtain o1 where o1: "resolve g fetch self item rest s = Some o1"
    by (auto simp: step_fetch split: option.splits)
  from fetched_resolve [OF o1] have f: "fetched (outcome_state o1) = fetched s @ [item]" .
  from assms(3) o1 show "fetched (outcome_state out) = fetched s @ [item]"
    using f unfolding step_fetch [OF assms(1,2)]
    by (auto simp: outcome_state_def split: sum.splits)
  show "out = Inr ((r', h', sk'), s') \<Longrightarrow> r' = map_option (\<lambda>r. r - 1) remaining \<and> sk' = skipped"
    using assms(3) o1 unfolding step_fetch [OF assms(1,2)]
    by (auto split: sum.splits)
qed

lemma step_skip_log:
  assumes "heappop (more_lt s) more_comments = Some (item, rest)"
    and "skip_test s remaining threshold item"
    and "replace_more_step g fetch self threshold remaining more_comments skipped s = Some out"
  shows "fetched (outcome_state out) = fetched s"
    and "out = Inr ((r', h', sk'), s') \<Longrightarrow> r' = remaining \<and> h' = rest \<and> sk' = skipped @ [item]"
proof -
  from assms(3) have out: "out = (case remove_item item s of
                   Inl e \<Rightarrow> Inl e
                 | Inr (u, s1) \<Rightarrow> Inr ((remaining, rest, skipped @ [item]), s1))"
    unfolding step_skip [OF assms(1,2)] by simp
  from fetched_remove_item [of item s] out
  show "fetched (outcome_state out) = fetched s"
    by (auto simp: outcome_state_def split: sum.splits)
  from out show "out = Inr ((r', h', sk'), s') \<Longrightarrow> r' = remaining \<and> h' = rest \<and> sk' = skipped @ [item]"
    by (auto split: sum.splits)
qed

lemma remove_item_present:
  assumes "objs s item = MoreComments n c ch (Some l) sb" and "item \<in> set (lists s l)"
  shows "remove_item item s = Inr ((), s\<lparr>lists := (lists s)(l := remove1 item (lists s l))\<rparr>)"
  using assms by (simp add: remove_item_def list_remove_def)

lemma loop_fetch_bound:
  "replace_more_loop n g fetch self threshold (Some r) h sk s = Some out
   \<Longrightarrow> \<exists>calls. fetched (outcome_state out) = fetched s @ calls \<and> length calls \<le> nat r"
proof (induction n arbitrary: r h sk s)
  case 0
  then show ?case by simp
next
  case (Suc n)
  show ?case
  proof (cases "h = []")
    case True
    with Suc.prems show ?thesis by (auto simp: outcome_state_def)
  next
    case False
    then obtain item rest where pop: "heappop (more_lt s) h = Some (item, rest)"
      by (cases "heappop (more_lt s) h") (auto simp: heappop_def Let_def split: if_splits)
    from Suc.prems False obtain o1 where
      o1: "replace_more_step g fetch self threshold (Some r) h sk s = Some o1"
      by (auto split: option.splits)
    show ?thesis
    proof (cases "skip_test s (Some r) threshold item")
      case True
      note f = step_skip_log(1) [OF pop True o1]
      show ?thesis
      proof (cases o1)
        case (Inl e)
        with Suc.prems False o1 f show ?thesis by (auto simp: outcome_state_def)
      next
        case (Inr v)
        obtain r' h' sk' s' where v: "v = ((r', h', sk'), s')" by (cases v) auto
        from step_skip_log(2) [OF pop True o1] Inr v have r': "r' = Some r" by simp
        from Suc.prems False o1 Inr v r'
        have "replace_more_loop n g fetch self threshold (Some r) h' sk' s' = Some out" by simp
        from Suc.IH [OF this] f Inr v show ?thesis by (simp add: outcome_state_def)
      qed
    next
      case sk: False
      then have pos: "0 < r" by (auto simp: skip_test_def)
      note f = step_fetch_log(1) [OF pop sk o1]
      show ?thesis
      proof (cases o1)
        case (Inl e)
        with Suc.prems False o1 have "out = Inl e" by simp
        with f Inl pos show ?thesis
          by (intro exI [of _ "[item]"]) (auto simp: outcome_state_def)
      next
        case (Inr v)
        obtain r' h' sk' s' where v: "v = ((r', h', sk'), s')" by (cases v) auto
        from step_fetch_log(2) [OF pop sk o1] Inr v have r': "r' = Some (r - 1)" by simp
        from Suc.prems False o1 Inr v r'
        have "replace_more_loop n g fetch self threshold (Some (r - 1)) h' sk' s' = Some out" by simp
        from Suc.IH [OF this] obtain calls where
          c: "fetched (outcome_state out) = fetched s' @ calls" "length calls \<le> nat (r - 1)"
          by blast
        from f Inr v have "fetched s' = fetched s @ [item]" by (simp add: outcome_state_def)
        with c pos show ?thesis by (intro exI [of _ "item # calls"]) auto
      qed
    qed
  qed
qed

section \<open>The heap keeps its elements\<close>

text \<open>
  \<^verbatim>\<open>heappush\<close> adds one element to the multiset of the list and \<^verbatim>\<open>heappop\<close>
  takes one out: sifting only moves elements.
\<close>

declare siftdown_loop.simps [simp del]
declare siftup_loop.simps [simp del]

lemma mset_update_swap:
  assumes "i < length xs" "j < length xs" "i \<noteq> j"
  shows "mset (xs[i := xs ! j, j := x]) = mset (xs[i := x])"
proof -
  let ?H = "xs[i := x]"
  have "xs[i := xs ! j, j := x] = ?H[i := ?H ! j, j := ?H ! i]"
    using assms by simp
  moreover have "mset (?H[i := ?H ! j, j := ?H ! i]) = mset ?H"
    using assms mset_swap [of j ?H i] by simp
  ultimately show ?thesis by simp
qed

lemma siftdown_loop_length [simp]:
  "length (siftdown_loop lt heap newitem startpos pos) = length heap"
proof (induction lt heap newitem startpos pos rule: siftdown_loop.induct)
  case (1 lt heap newitem startpos pos)
  show ?case
  proof (cases "pos > startpos \<and> lt newitem (heap ! ((pos - 1) div 2))")
    case True
    with "1.IH" [OF _ refl refl] show ?thesis
      by (subst siftdown_loop.simps) (simp add: Let_def)
  next
    case False
    then show ?thesis by (subst siftdown_loop.simps) (auto simp: Let_def)
  qed
qed

lemma siftdown_loop_mset:
  "pos < length heap \<Longrightarrow>
   mset (siftdown_loop lt heap newitem startpos pos) = mset (heap[pos := newitem])"
proof (induction lt heap newitem startpos pos rule: siftdown_loop.induct)
  case (1 lt heap newitem startpos pos)
  show ?case
  proof (cases "pos > startpos \<and> lt newitem (heap ! ((pos - 1) div 2))")
    case True
    let ?pp = "(pos - 1) div 2"
    from True "1.prems" have pp: "?pp < pos" "?pp < length heap" by auto
    from True have "siftdown_loop lt heap newitem startpos pos
         = siftdown_loop lt (heap[pos := heap ! ?pp]) newitem startpos ?pp"
      by (subst siftdown_loop.simps) (simp add: Let_def)
    also have "mset \<dots> = mset (heap[pos := heap ! ?pp, ?pp := newitem])"
      using "1.IH" [OF _ refl refl] True pp by simp
    also have "\<dots> = mset (heap[pos := newitem])"
      using pp "1.prems" by (intro mset_update_swap) auto
    finally show ?thesis .
  next
    case False
    then show ?thesis by (subst siftdown_loop.simps) (auto simp: Let_def)
  qed
qed

lemma siftdown_mset: "pos < length heap \<Longrightarrow> mset (siftdown lt heap startpos pos) = mset heap"
  by (simp add: siftdown_def siftdown_loop_mset)

lemma siftdown_length [simp]: "length (siftdown lt heap startpos pos) = length heap"
  by (simp add: siftdown_def)

lemma siftup_loop_props:
  "siftup_loop lt heap pos = (heap', pos') \<Longrightarrow> pos < length heap \<Longrightarrow>
   length heap' = length heap \<and> pos' < length heap \<and> pos \<le> pos'
   \<and> mset (heap'[pos' := x]) = mset (heap[pos := x])"
proof (induction lt heap pos arbitrary: heap' pos' rule: siftup_loop.induct)
  case (1 lt heap pos)
  let ?c = "2 * pos + 1"
  show ?case
  proof (cases "?c < length heap")
    case True
    define c' where "c' = (if ?c + 1 < length heap \<and> \<not> lt (heap ! ?c) (heap ! (?c + 1))
                            then ?c + 1 else ?c)"
    have c': "c' < length heap" "pos < c'" using True by (auto simp: c'_def)
    have "siftup_loop lt heap pos = siftup_loop lt (heap[pos := heap ! c']) c'"
      by (subst siftup_loop.simps) (simp only: Let_def c'_def True if_True)
    with "1.prems"(1) have eq: "siftup_loop lt (heap[pos := heap ! c']) c' = (heap', pos')"
      by simp
    have "length heap' = length (heap[pos := heap ! c']) \<and> pos' < length (heap[pos := heap ! c'])
       \<and> c' \<le> pos'
       \<and> mset (heap'[pos' := x]) = mset (heap[pos := heap ! c', c' := x])"
      by (rule "1.IH" [OF refl True refl c'_def eq]) (use c' in simp)
    then have ih: "length heap' = length heap" "pos' < length heap" "c' \<le> pos'"
      "mset (heap'[pos' := x]) = mset (heap[pos := heap ! c', c' := x])"
      by simp_all
    have "mset (heap[pos := heap ! c', c' := x]) = mset (heap[pos := x])"
      using c' "1.prems"(2) by (intro mset_update_swap) auto
    with ih c' show ?thesis by simp
  next
    case False
    with "1.prems" show ?thesis by (subst (asm) siftup_loop.simps) (auto simp: Let_def)
  qed
qed

lemma siftup_mset: "pos < length heap \<Longrightarrow> mset (siftup lt heap pos) = mset heap"
proof -
  assume p: "pos < length heap"
  obtain heap' pos' where l: "siftup_loop lt heap pos = (heap', pos')"
    by (cases "siftup_loop lt heap pos")
  from siftup_loop_props [OF l p, of "heap ! pos"]
  have "pos' < length (heap'[pos' := heap ! pos])" "mset (heap'[pos' := heap ! pos]) = mset heap"
    by simp_all
  with l show ?thesis by (simp add: siftup_def siftdown_mset)
qed

lemma heappush_mset [simp]: "mset (heappush lt heap item) = add_mset item (mset heap)"
  by (simp add: heappush_def siftdown_mset)

lemma heappush_length [simp]: "length (heappush lt heap item) = Suc (length heap)"
  by (simp add: heappush_def)

lemma heappop_None [simp]: "heappop lt heap = None \<longleftrightarrow> heap = []"
  by (simp add: heappop_def Let_def)

lemma heappop_mset:
  assumes "heappop lt heap = Some (item, rest)"
  shows "mset heap = add_mset item (mset rest)"
proof -
  from assms have ne: "heap \<noteq> []" by (auto simp: heappop_def)
  then obtain b x where h: "heap = b @ [x]" by (cases heap rule: rev_cases) auto
  show ?thesis
  proof (cases "b = []")
    case True
    with assms h show ?thesis by (auto simp: heappop_def Let_def)
  next
    case False
    then have b0: "0 < length b" by simp
    from assms h False have i: "item = b ! 0" and r: "rest = siftup lt (b[0 := x]) 0"
      by (auto simp: heappop_def Let_def)
    have "mset rest = mset (b[0 := x])"
      unfolding r using b0 by (intro siftup_mset) simp
    also have "\<dots> = add_mset x (mset b - {#b ! 0#})"
      using b0 by (simp add: mset_update)
    finally have "add_mset item (mset rest) = add_mset x (mset b)"
      using i b0 by simp
    with h show ?thesis by simp
  qed
qed

lemma heappop_length: "heappop lt heap = Some (item, rest) \<Longrightarrow> length heap = Suc (length rest)"
  using heappop_mset [of lt heap item rest] by (metis size_mset size_add_mset)

lemma heappop_set: "heappop lt heap = Some (item, rest) \<Longrightarrow> set heap = insert item (set rest)"
  using heappop_mset [of lt heap item rest] by (metis set_mset_add_mset_insert set_mset_mset)

section \<open>Flattening a forest\<close>

lemma is_more_Comment [simp]: "objs s a = Comment n p root r sb \<Longrightarrow> \<not> is_more s a"
  by (simp add: is_more_def)

lemma is_more_More [simp]: "objs s a = MoreComments n c ch rf sb \<Longrightarrow> is_more s a"
  by (simp add: is_more_def)

lemma not_is_moreE:
  assumes "\<not> is_more s a"
  obtains n p root sb where "objs s a = Comment n p root (replies (objs s a)) sb"
  using assms by (cases "objs s a") (auto simp: is_more_def)

lemma is_moreE:
  assumes "is_more s a"
  obtains n c ch rf sb where "objs s a = MoreComments n c ch rf sb"
  using assms by (cases "objs s a") (auto simp: is_more_def)

lemma length_bfs: "length (bfs q) = sum_list (map count_nodes q)"
  by (induction q rule: bfs.induct) auto

lemma list_loop_bfs:
  "\<forall>t \<in> set q. tree_at s t \<Longrightarrow> sum_list (map count_nodes q) < fuel
   \<Longrightarrow> list_loop fuel s (map root_addr q) cs = Some (cs @ bfs q)"
proof (induction q arbitrary: fuel cs rule: bfs.induct)
  case 1
  then show ?case by (cases fuel) auto
next
  case (2 a q)
  then obtain n where fuel: "fuel = Suc n" by (cases fuel) auto
  from "2.prems" have "is_more s a" by simp
  then obtain nm c ch rf sb where o: "objs s a = MoreComments nm c ch rf sb" by (rule is_moreE)
  from "2.IH" [of n "cs @ [a]"] "2.prems" fuel o show ?case by simp
next
  case (3 a l ts q)
  then obtain n where fuel: "fuel = Suc n" by (cases fuel) auto
  from "3.prems" have c: "\<not> is_more s a" and r: "replies (objs s a) = l"
    and l: "lists s l = map root_addr ts" and ts: "\<forall>t \<in> set ts. tree_at s t" by auto
  from c obtain nm p root sb where o: "objs s a = Comment nm p root (replies (objs s a)) sb"
    by (rule not_is_moreE)
  have "list_loop n s (map root_addr (q @ ts)) (cs @ [a]) = Some ((cs @ [a]) @ bfs (q @ ts))"
    using "3.prems" ts fuel by (intro "3.IH") auto
  with fuel o r l show ?case by (simp del: tree_at.simps)
qed

lemma reach_empty [simp]: "reach s {} = {}"
proof -
  have "a \<in> reach s {} \<Longrightarrow> False" for a by (induction rule: reach.induct) auto
  then show ?thesis by auto
qed

lemma reach_insert_more:
  assumes "is_more s a"
  shows "reach s (insert a Q) = insert a (reach s Q)"
proof (intro set_eqI iffI)
  fix x assume "x \<in> reach s (insert a Q)"
  then show "x \<in> insert a (reach s Q)"
  proof (induction rule: reach.induct)
    case (start x)
    then show ?case by (auto intro: reach.start)
  next
    case (reply c n p root r sb x)
    with assms have "c \<noteq> a" by auto
    with reply show ?case by (auto intro: reach.reply)
  qed
next
  fix x assume "x \<in> insert a (reach s Q)"
  then consider "x = a" | "x \<in> reach s Q" by auto
  then show "x \<in> reach s (insert a Q)"
  proof cases
    case 1
    then show ?thesis by (auto intro: reach.start)
  next
    case 2
    then show ?thesis
      by (induction rule: reach.induct) (auto intro: reach.start reach.reply)
  qed
qed

lemma reach_insert_comment:
  assumes "objs s c = Comment n p root r sb"
  shows "reach s (insert c Q) = insert c (reach s (Q \<union> set (lists s r)))"
proof (intro set_eqI iffI)
  fix x assume "x \<in> reach s (insert c Q)"
  then show "x \<in> insert c (reach s (Q \<union> set (lists s r)))"
  proof (induction rule: reach.induct)
    case (start x)
    then show ?case by (auto intro: reach.start)
  next
    case (reply c' n' p' root' r' sb' x)
    show ?case
    proof (cases "c' = c")
      case True
      with reply assms have "x \<in> set (lists s r)" by simp
      then show ?thesis by (auto intro: reach.start)
    next
      case False
      with reply have "c' \<in> reach s (Q \<union> set (lists s r))" by simp
      from reach.reply [OF this reply(2,3)] show ?thesis by simp
    qed
  qed
next
  fix x assume "x \<in> insert c (reach s (Q \<union> set (lists s r)))"
  then consider "x = c" | "x \<in> reach s (Q \<union> set (lists s r))" by auto
  then show "x \<in> reach s (insert c Q)"
  proof cases
    case 1
    then show ?thesis by (auto intro: reach.start)
  next
    case 2
    then show ?thesis
    proof (induction rule: reach.induct)
      case (start x)
      then show ?case
        using reach.reply [OF reach.start [of c "insert c Q" s] assms] by (auto intro: reach.start)
    next
      case (reply c' n' p' root' r' sb' x)
      then show ?case by (auto intro: reach.reply)
    qed
  qed
qed

lemma list_loop_reach:
  "list_loop fuel s q cs = Some res \<Longrightarrow> set res = set cs \<union> reach s (set q)"
proof (induction fuel arbitrary: q cs)
  case 0
  then show ?case by simp
next
  case (Suc n)
  show ?case
  proof (cases q)
    case Nil
    with Suc.prems show ?thesis by simp
  next
    case (Cons a rest)
    show ?thesis
    proof (cases "objs s a")
      case (Comment nm p root r sb)
      with Suc.prems Cons have "list_loop n s (rest @ lists s r) (cs @ [a]) = Some res" by simp
      from Suc.IH [OF this] reach_insert_comment [OF Comment, of "set rest"] Cons
      show ?thesis by auto
    next
      case (MoreComments nm c ch rf sb)
      with Suc.prems Cons have "list_loop n s rest (cs @ [a]) = Some res" by simp
      from Suc.IH [OF this] reach_insert_more [of s a "set rest"] MoreComments Cons
      show ?thesis by auto
    qed
  qed
qed

section \<open>Gathering the placeholders of a forest\<close>

subsection \<open>Storing a removal target changes nothing else\<close>

lemma lists_set_remove_from [simp]: "lists (set_remove_from s a l) = lists s"
  by (simp add: set_remove_from_def split: node.splits)

lemma index_set_remove_from [simp]: "comments_by_id (set_remove_from s a l) = comments_by_id s"
  by (simp add: set_remove_from_def split: node.splits)

lemma next_obj_set_remove_from [simp]: "next_obj (set_remove_from s a l) = next_obj s"
  by (simp add: set_remove_from_def split: node.splits)

lemma next_list_set_remove_from [simp]: "next_list (set_remove_from s a l) = next_list s"
  by (simp add: set_remove_from_def split: node.splits)

lemma is_more_set_remove_from [simp]: "is_more (set_remove_from s a l) b = is_more s b"
  by (cases "objs s a") (auto simp: set_remove_from_def is_more_def)

lemma objs_set_remove_from_other:
  "b \<noteq> a \<Longrightarrow> objs (set_remove_from s a l) b = objs s b"
  by (simp add: set_remove_from_def split: node.splits)

lemma objs_set_remove_from_comment:
  "\<not> is_more s b \<Longrightarrow> objs (set_remove_from s a l) b = objs s b"
  by (auto simp: set_remove_from_def is_more_def split: node.splits)

lemma remove_from_set_remove_from:
  "is_more s a \<Longrightarrow> remove_from (objs (set_remove_from s a l) a) = Some l"
  by (auto simp: set_remove_from_def is_more_def split: node.splits)

lemma mcount_set_remove_from [simp]:
  "mcount (objs (set_remove_from s a l) b) = mcount (objs s b)"
  by (auto simp: set_remove_from_def split: node.splits)

lemma more_lt_set_remove_from [simp]: "more_lt (set_remove_from s a l) = more_lt s"
  by (simp add: more_lt_def fun_eq_iff)

lemma fallback_set_remove_from [simp]:
  "fallback (set_remove_from s a l) tree pt = fallback s tree pt"
  by (simp add: fallback_def split: option.splits)

lemma tree_at_set_remove_from [simp]: "tree_at (set_remove_from s a l) t = tree_at s t"
  by (induction t) (auto simp: objs_set_remove_from_comment)

lemma queue_entry_set_remove_from [simp]:
  "queue_entry (set_remove_from s a l) tree pt qe ae = queue_entry s tree pt qe ae"
  by (auto simp: queue_entry_def objs_set_remove_from_comment split: option.splits)

subsection \<open>The gather on a forest\<close>

lemma gather_loop_spec:
  "list_all2 (queue_entry s tree pt) queue aq
   \<Longrightarrow> sum_list (map (count_nodes \<circ> snd) aq) < fuel
   \<Longrightarrow> gather_loop fuel tree pt queue h s
       = Some (push_list (more_lt s) (map fst (placeholders aq)) h,
               set_targets (placeholders aq) s)"
proof (induction aq arbitrary: queue fuel h s rule: placeholders.induct)
  case 1
  then show ?case by (cases fuel) auto
next
  case (2 l a q)
  then obtain n where fuel: "fuel = Suc n" by (cases fuel) auto
  from "2.prems"(1) obtain qe queue' where
    queue0: "queue = qe # queue'" and
    e0: "queue_entry s tree pt qe (l, AMore a)" and
    rest: "list_all2 (queue_entry s tree pt) queue' q"
    by (auto simp: list_all2_Cons2)
  obtain parent where qe: "qe = (parent, a)"
    using e0 by (cases qe) (auto simp: queue_entry_def)
  note queue = queue0 [unfolded qe] and e = e0 [unfolded qe]
  from e have more: "is_more s a" by (simp add: queue_entry_def)
  then obtain nm c ch rf sb where o: "objs s a = MoreComments nm c ch rf sb" by (rule is_moreE)
  from e have target: "(case parent of Some p \<Rightarrow> replies (objs s p)
                        | None \<Rightarrow> fallback s tree pt) = l"
    by (auto simp: queue_entry_def split: option.splits)
  let ?s' = "set_remove_from s a l"
  have "gather_loop n tree pt queue' (heappush (more_lt s) h a) ?s'
        = Some (push_list (more_lt ?s') (map fst (placeholders q)) (heappush (more_lt s) h a),
                set_targets (placeholders q) ?s')"
    using rest "2.prems"(2) fuel by (intro "2.IH") (auto simp: list_all2_conv_all_nth)
  with fuel queue o target show ?case by (simp add: Let_def)
next
  case (3 l a r ts q)
  then obtain n where fuel: "fuel = Suc n" by (cases fuel) auto
  from "3.prems"(1) obtain qe queue' where
    queue0: "queue = qe # queue'" and
    e0: "queue_entry s tree pt qe (l, AComment a r ts)" and
    rest: "list_all2 (queue_entry s tree pt) queue' q"
    by (auto simp: list_all2_Cons2)
  obtain parent where qe: "qe = (parent, a)"
    using e0 by (cases qe) (auto simp: queue_entry_def)
  note queue = queue0 [unfolded qe] and e = e0 [unfolded qe]
  from e have c: "\<not> is_more s a" and r: "replies (objs s a) = r"
    and l: "lists s r = map root_addr ts" and ts: "\<forall>t \<in> set ts. tree_at s t"
    by (auto simp: queue_entry_def)
  from c obtain nm p root sb where o: "objs s a = Comment nm p root (replies (objs s a)) sb"
    by (rule not_is_moreE)
  have "list_all2 (queue_entry s tree pt) (map (\<lambda>item. (Some a, item)) (lists s r))
          (map (Pair r) ts)"
    using c r ts unfolding l
    by (auto simp: list_all2_conv_all_nth queue_entry_def)
  with rest have all: "list_all2 (queue_entry s tree pt)
      (queue' @ map (\<lambda>item. (Some a, item)) (lists s r)) (q @ map (Pair r) ts)"
    by (rule list_all2_appendI)
  have "gather_loop n tree pt (queue' @ map (\<lambda>item. (Some a, item)) (lists s r)) h s
        = Some (push_list (more_lt s) (map fst (placeholders (q @ map (Pair r) ts))) h,
                set_targets (placeholders (q @ map (Pair r) ts)) s)"
    using all "3.prems"(2) fuel by (intro "3.IH") (auto simp: comp_def)
  with fuel queue o r show ?case by simp
qed

lemma placeholders_bfs:
  "\<forall>e \<in> set aq. tree_at s (snd e)
   \<Longrightarrow> map fst (placeholders aq) = filter (is_more s) (bfs (map snd aq))"
proof (induction aq rule: placeholders.induct)
  case 1
  then show ?case by simp
next
  case (2 l a q)
  then show ?case by simp
next
  case (3 l a r ts q)
  from "3.prems" have "\<forall>e \<in> set (q @ map (Pair r) ts). tree_at s (snd e)" by auto
  from "3.IH" [OF this] "3.prems" show ?case by (simp add: comp_def)
qed

lemma placeholders_in_list:
  "\<forall>e \<in> set aq. tree_at s (snd e) \<and> root_addr (snd e) \<in> set (lists s (fst e))
   \<Longrightarrow> \<forall>g \<in> set (placeholders aq). is_more s (fst g) \<and> fst g \<in> set (lists s (snd g))"
proof (induction aq rule: placeholders.induct)
  case 1
  then show ?case by simp
next
  case (2 l a q)
  then show ?case by simp
next
  case (3 l a r ts q)
  from "3.prems" have "\<forall>e \<in> set (q @ map (Pair r) ts).
      tree_at s (snd e) \<and> root_addr (snd e) \<in> set (lists s (fst e))" by auto
  from "3.IH" [OF this] show ?case by simp
qed

subsection \<open>The two effects\<close>

lemma mset_push_list [simp]: "mset (push_list lt as h) = mset h + mset as"
  by (induction as arbitrary: h) auto

lemma lists_set_targets [simp]: "lists (set_targets gs s) = lists s"
  by (induction gs s rule: set_targets.induct) auto

lemma index_set_targets [simp]: "comments_by_id (set_targets gs s) = comments_by_id s"
  by (induction gs s rule: set_targets.induct) auto

lemma next_obj_set_targets [simp]: "next_obj (set_targets gs s) = next_obj s"
  by (induction gs s rule: set_targets.induct) auto

lemma next_list_set_targets [simp]: "next_list (set_targets gs s) = next_list s"
  by (induction gs s rule: set_targets.induct) auto

lemma fetched_set_targets [simp]: "fetched (set_targets gs s) = fetched s"
  by (induction gs s rule: set_targets.induct) auto

lemma is_more_set_targets [simp]: "is_more (set_targets gs s) b = is_more s b"
  by (induction gs s rule: set_targets.induct) auto

lemma more_lt_set_targets [simp]: "more_lt (set_targets gs s) = more_lt s"
  by (induction gs s rule: set_targets.induct) auto

lemma tree_at_set_targets [simp]: "tree_at (set_targets gs s) t = tree_at s t"
  by (induction gs s rule: set_targets.induct) auto

lemma objs_set_targets_other:
  "b \<notin> fst ` set gs \<Longrightarrow> objs (set_targets gs s) b = objs s b"
  by (induction gs s rule: set_targets.induct) (auto simp: objs_set_remove_from_other)

lemma objs_set_targets_comment:
  "\<not> is_more s b \<Longrightarrow> objs (set_targets gs s) b = objs s b"
  by (induction gs s rule: set_targets.induct) (auto simp: objs_set_remove_from_comment)

lemma remove_from_set_targets:
  "distinct (map fst gs) \<Longrightarrow> (a, l) \<in> set gs \<Longrightarrow> is_more s a
   \<Longrightarrow> remove_from (objs (set_targets gs s) a) = Some l"
proof (induction gs s rule: set_targets.induct)
  case (1 s)
  then show ?case by simp
next
  case (2 b k gs s)
  show ?case
  proof (cases "(a, l) = (b, k)")
    case True
    with "2.prems" have "a \<notin> fst ` set gs" by auto
    with True "2.prems" show ?thesis
      by (simp add: objs_set_targets_other remove_from_set_remove_from)
  next
    case False
    with "2.prems" "2.IH" show ?thesis by auto
  qed
qed

section \<open>Skipping every pending placeholder\<close>

lemma gather_forest:
  assumes "forest_at s t ts" and "sum_list (map count_nodes ts) < fuel"
  shows "gather_more_comments fuel (Some t) pt s
         = Some (Inr (push_list (more_lt s)
                        (map fst (placeholders (map (Pair (fallback s t pt)) ts))) [],
                      set_targets (placeholders (map (Pair (fallback s t pt)) ts)) s))"
proof -
  from assms have l: "lists s t = map root_addr ts" and tr: "\<forall>x \<in> set ts. tree_at s x"
    by (auto simp: forest_at_def)
  have "list_all2 (queue_entry s t pt) (map (\<lambda>x. (None, x)) (lists s t))
          (map (Pair (fallback s t pt)) ts)"
    using tr unfolding l by (auto simp: list_all2_conv_all_nth queue_entry_def)
  moreover have "sum_list (map (count_nodes \<circ> snd) (map (Pair (fallback s t pt)) ts)) < fuel"
    using assms(2) by (simp add: comp_def)
  ultimately show ?thesis
    by (simp add: gather_more_comments_def gather_loop_spec)
qed

lemma pending_after_gather:
  assumes "forest_at s t ts" and "distinct (bfs ts)"
  defines "gs \<equiv> placeholders (map (Pair t) ts)"
  shows "pending_ok (set_targets gs s) (push_list (more_lt s) (map fst gs) [])"
    and "mset (push_list (more_lt s) (map fst gs) []) = mset (filter (is_more s) (bfs ts))"
proof -
  from assms(1) have l: "lists s t = map root_addr ts" and tr: "\<forall>x \<in> set ts. tree_at s x"
    by (auto simp: forest_at_def)
  have pb: "map fst gs = filter (is_more s) (bfs ts)"
    unfolding gs_def using tr by (subst placeholders_bfs [of _ s]) (auto simp: comp_def)
  then have d: "distinct (map fst gs)" using assms(2) by simp
  have m: "mset (push_list (more_lt s) (map fst gs) []) = mset (map fst gs)" by simp
  then show "mset (push_list (more_lt s) (map fst gs) []) = mset (filter (is_more s) (bfs ts))"
    using pb by simp
  have dh: "distinct (push_list (more_lt s) (map fst gs) [])"
    using d m by (metis mset_eq_imp_distinct_iff)
  have inl: "\<forall>g \<in> set gs. is_more s (fst g) \<and> fst g \<in> set (lists s (snd g))"
    unfolding gs_def using tr l by (intro placeholders_in_list) auto
  have "\<forall>a \<in> set (push_list (more_lt s) (map fst gs) []).
          is_more (set_targets gs s) a
          \<and> (\<exists>k. remove_from (objs (set_targets gs s) a) = Some k
                  \<and> a \<in> set (lists (set_targets gs s) k))"
  proof
    fix a assume "a \<in> set (push_list (more_lt s) (map fst gs) [])"
    then have "a \<in> set (map fst gs)" using m by (metis set_mset_mset)
    then obtain k where ak: "(a, k) \<in> set gs" by auto
    with inl have im: "is_more s a" and ik: "a \<in> set (lists s k)" by auto
    from remove_from_set_targets [OF d ak im] im ik
    show "is_more (set_targets gs s) a
          \<and> (\<exists>k. remove_from (objs (set_targets gs s) a) = Some k
                  \<and> a \<in> set (lists (set_targets gs s) k))"
      by auto
  qed
  with dh show "pending_ok (set_targets gs s) (push_list (more_lt s) (map fst gs) [])"
    by (simp add: pending_ok_def)
qed

lemma filter_remove1_other: "\<not> P x \<Longrightarrow> filter P (remove1 x xs) = filter P xs"
  by (induction xs) auto

lemma pending_ok_pop:
  assumes "pending_ok s h" and "heappop lt h = Some (item, rest)"
  shows "item \<notin> set rest" and "distinct rest" and "set rest \<subseteq> set h" and "item \<in> set h"
proof -
  from heappop_mset [OF assms(2)] have m: "mset h = add_mset item (mset rest)" .
  from assms(1) have "distinct h" by (simp add: pending_ok_def)
  with m have "distinct (item # rest)" by (metis mset.simps(2) mset_eq_imp_distinct_iff)
  then show "item \<notin> set rest" "distinct rest" by auto
  from heappop_set [OF assms(2)] show "set rest \<subseteq> set h" "item \<in> set h" by auto
qed

lemma pending_ok_remove:
  assumes "pending_ok s h" and "heappop lt h = Some (item, rest)"
  obtains l where "remove_item item s
                   = Inr ((), s\<lparr>lists := (lists s)(l := remove1 item (lists s l))\<rparr>)"
    and "pending_ok (s\<lparr>lists := (lists s)(l := remove1 item (lists s l))\<rparr>) rest"
    and "remove_from (objs s item) = Some l"
proof -
  note pop = pending_ok_pop [OF assms]
  from assms(1) pop(4) obtain l where im: "is_more s item"
    and rf: "remove_from (objs s item) = Some l" and il: "item \<in> set (lists s l)"
    by (auto simp: pending_ok_def)
  from im obtain n c ch rf' sb where "objs s item = MoreComments n c ch rf' sb" by (rule is_moreE)
  with rf have o: "objs s item = MoreComments n c ch (Some l) sb" by simp
  let ?s1 = "s\<lparr>lists := (lists s)(l := remove1 item (lists s l))\<rparr>"
  have 1: "remove_item item s = Inr ((), ?s1)" by (rule remove_item_present [OF o il])
  have 2: "pending_ok ?s1 rest"
    unfolding pending_ok_def
  proof (intro conjI ballI)
    show "distinct rest" by (rule pop(2))
  next
    fix a assume a: "a \<in> set rest"
    with pop have ah: "a \<in> set h" and ne: "a \<noteq> item" by auto
    from assms(1) ah obtain k where "is_more s a" "remove_from (objs s a) = Some k"
      "a \<in> set (lists s k)" by (auto simp: pending_ok_def)
    with ne show "is_more ?s1 a" by (simp add: is_more_def)
    from \<open>remove_from (objs s a) = Some k\<close> \<open>a \<in> set (lists s k)\<close> ne
    show "\<exists>k. remove_from (objs ?s1 a) = Some k \<and> a \<in> set (lists ?s1 k)"
      by (intro exI [of _ k]) auto
  qed
  from that [OF 1 2 rf] show thesis .
qed

lemma loop_limit0:
  assumes "pending_ok s h" and "r \<le> 0" and "length h < fuel"
  shows "\<exists>sk' s'. replace_more_loop fuel g fetch self thr (Some r) h sk s
                    = Some (Inr (([], sk @ sk'), s'))
           \<and> mset sk' = mset h \<and> fetched s' = fetched s \<and> objs s' = objs s
           \<and> comments_by_id s' = comments_by_id s
           \<and> next_obj s' = next_obj s \<and> next_list s' = next_list s
           \<and> (\<forall>k. filter (\<lambda>a. \<not> is_more s a) (lists s' k)
                    = filter (\<lambda>a. \<not> is_more s a) (lists s k))"
  using assms
proof (induction fuel arbitrary: h sk s)
  case 0
  then show ?case by simp
next
  case (Suc n)
  show ?case
  proof (cases "h = []")
    case True
    then show ?thesis by simp
  next
    case False
    then obtain item rest where pop: "heappop (more_lt s) h = Some (item, rest)"
      by (cases "heappop (more_lt s) h") auto
    from Suc.prems(2) have sk: "skip_test s (Some r) thr item" by (simp add: skip_test_def)
    from pending_ok_remove [OF Suc.prems(1) pop] obtain l where
      rm: "remove_item item s = Inr ((), s\<lparr>lists := (lists s)(l := remove1 item (lists s l))\<rparr>)"
      and pk: "pending_ok (s\<lparr>lists := (lists s)(l := remove1 item (lists s l))\<rparr>) rest"
      and rf: "remove_from (objs s item) = Some l"
      by blast
    let ?s1 = "s\<lparr>lists := (lists s)(l := remove1 item (lists s l))\<rparr>"
    from heappop_length [OF pop] Suc.prems(3) have len: "length rest < n" by simp
    from Suc.IH [OF pk Suc.prems(2) len, of "sk @ [item]"] obtain sk' s' where
      ih: "replace_more_loop n g fetch self thr (Some r) rest (sk @ [item]) ?s1
             = Some (Inr (([], (sk @ [item]) @ sk'), s'))"
      "mset sk' = mset rest" "fetched s' = fetched ?s1" "objs s' = objs ?s1"
      "comments_by_id s' = comments_by_id ?s1" "next_obj s' = next_obj ?s1"
      "next_list s' = next_list ?s1"
      "\<forall>k. filter (\<lambda>a. \<not> is_more ?s1 a) (lists s' k) = filter (\<lambda>a. \<not> is_more ?s1 a) (lists ?s1 k)"
      by blast
    from pending_ok_pop(4) [OF Suc.prems(1) pop] Suc.prems(1)
    have im: "is_more s item" by (simp add: pending_ok_def)
    have same: "is_more ?s1 = is_more s" by (simp add: is_more_def fun_eq_iff)
    have step: "replace_more_step g fetch self thr (Some r) h sk s
                = Some (Inr ((Some r, rest, sk @ [item]), ?s1))"
      by (simp add: step_skip [OF pop sk] rm)
    have 1: "replace_more_loop (Suc n) g fetch self thr (Some r) h sk s
             = Some (Inr (([], sk @ (item # sk')), s'))"
      using False step ih(1) by simp
    have 2: "mset (item # sk') = mset h"
      using ih(2) heappop_mset [OF pop] by simp
    have 3: "\<forall>k. filter (\<lambda>a. \<not> is_more s a) (lists s' k) = filter (\<lambda>a. \<not> is_more s a) (lists s k)"
      using ih(8) im unfolding same by (auto simp: filter_remove1_other)
    from 1 2 3 ih(3-7) show ?thesis by (intro exI [of _ "item # sk'"] exI [of _ s']) simp
  qed
qed

section \<open>The budget of fetches\<close>

lemma fetched_gather_more_comments:
  "gather_more_comments fuel tree pt s = Some out \<Longrightarrow> fetched (outcome_state out) = fetched s"
  by (cases tree) (auto simp: gather_more_comments_def outcome_state_def dest: fetched_gather_loop)

lemma run_fetch_bound:
  assumes "replace_more_run fuel fetch self (Some n) threshold s = Some out"
  shows "\<exists>calls. fetched (outcome_state out) = fetched s @ calls \<and> length calls \<le> nat n"
proof (cases "gather_more_comments fuel (comments self) None s")
  case None
  with assms show ?thesis by (simp add: replace_more_run_def)
next
  case (Some g)
  note fg = fetched_gather_more_comments [OF Some]
  show ?thesis
  proof (cases g)
    case (Inl e)
    with assms Some fg show ?thesis
      by (auto simp: replace_more_run_def outcome_state_def)
  next
    case (Inr v)
    obtain h s1 where v: "v = (h, s1)" by (cases v)
    from assms Some Inr v
    have "replace_more_loop fuel fuel fetch self threshold (Some n) h [] s1 = Some out"
      by (simp add: replace_more_run_def)
    from loop_fetch_bound [OF this] fg Inr v show ?thesis by (simp add: outcome_state_def)
  qed
qed

lemma replace_more_of_run:
  "replace_more fuel fetch self limit threshold s = Some out \<Longrightarrow>
   \<exists>out'. replace_more_run fuel fetch self limit threshold s = Some out'
          \<and> outcome_state out = outcome_state out'"
  by (auto simp: replace_more_def outcome_state_def split: option.splits sum.splits)

lemma run_limit0:
  assumes "forest_at s l ts" and "distinct (bfs ts)" and "sum_list (map count_nodes ts) < fuel"
  shows "\<exists>skipped s'.
           replace_more_run fuel fetch \<lparr>comments = Some l\<rparr> (Some 0) threshold s
             = Some (Inr (([], skipped), s'))
           \<and> mset skipped = mset (filter (is_more s) (bfs ts))
           \<and> fetched s' = fetched s \<and> next_obj s' = next_obj s
           \<and> comments_by_id s' = comments_by_id s
           \<and> (\<forall>k. filter (\<lambda>a. \<not> is_more s a) (lists s' k)
                    = filter (\<lambda>a. \<not> is_more s a) (lists s k))"
proof -
  let ?gs = "placeholders (map (Pair l) ts)"
  let ?h = "push_list (more_lt s) (map fst ?gs) []"
  let ?s0 = "set_targets ?gs s"
  have g: "gather_more_comments fuel (Some l) None s = Some (Inr (?h, ?s0))"
    using gather_forest [OF assms(1,3), of None] by (simp add: fallback_def)
  note p = pending_after_gather [OF assms(1,2)]
  have "length ?h = length (filter (is_more s) (bfs ts))"
    using p(2) by (metis size_mset)
  also have "\<dots> \<le> length (bfs ts)" by simp
  also have "\<dots> < fuel" using assms(3) by (simp add: length_bfs)
  finally have len: "length ?h < fuel" .
  from loop_limit0 [OF p(1) _ len, of 0 fuel fetch "\<lparr>comments = Some l\<rparr>" threshold "[]"]
  obtain sk' s' where
    lp: "replace_more_loop fuel fuel fetch \<lparr>comments = Some l\<rparr> threshold (Some 0) ?h [] ?s0
           = Some (Inr (([], sk'), s'))"
    and r: "mset sk' = mset ?h" "fetched s' = fetched ?s0" "next_obj s' = next_obj ?s0"
       "comments_by_id s' = comments_by_id ?s0"
       "\<forall>k. filter (\<lambda>a. \<not> is_more ?s0 a) (lists s' k) = filter (\<lambda>a. \<not> is_more ?s0 a) (lists ?s0 k)"
    by auto
  from g lp have "replace_more_run fuel fetch \<lparr>comments = Some l\<rparr> (Some 0) threshold s
             = Some (Inr (([], sk'), s'))"
    by (simp add: replace_more_run_def)
  with r p(2) show ?thesis by (intro exI [of _ sk'] exI [of _ s']) simp
qed

section \<open>The heap property\<close>

text \<open>
  \<^verbatim>\<open>heappush\<close> and \<^verbatim>\<open>heappop\<close> keep the heap property, and the element popped has
  the largest key of the heap.
\<close>

lemma heap_inv_root:
  assumes "heap_inv k h"
  shows "i < length h \<Longrightarrow> k (h ! i) \<le> k (h ! 0)"
proof (induction i rule: less_induct)
  case (less i)
  show ?case
  proof (cases "i = 0")
    case True
    then show ?thesis by simp
  next
    case False
    then have "(i - 1) div 2 < i" by arith
    moreover from this less.prems have "(i - 1) div 2 < length h" by simp
    ultimately have "k (h ! ((i - 1) div 2)) \<le> k (h ! 0)" by (rule less.IH)
    moreover from assms False less.prems have "k (h ! i) \<le> k (h ! ((i - 1) div 2))"
      by (simp add: heap_inv_def)
    ultimately show ?thesis by simp
  qed
qed

lemma siftdown_loop_heap:
  assumes ltk: "\<And>a b. lt a b \<longleftrightarrow> k b < k a"
  shows "pos < length heap
   \<Longrightarrow> \<forall>i. 0 < i \<and> i < length heap \<and> i \<noteq> pos \<longrightarrow> k (heap ! i) \<le> k (heap ! ((i - 1) div 2))
   \<Longrightarrow> k (heap ! pos) \<le> k newitem
   \<Longrightarrow> \<forall>c. 0 < c \<and> c < length heap \<and> (c - 1) div 2 = pos \<and> 0 < pos
          \<longrightarrow> k (heap ! c) \<le> k (heap ! ((pos - 1) div 2))
   \<Longrightarrow> heap_inv k (siftdown_loop lt heap newitem 0 pos)"
proof (induction pos arbitrary: heap rule: less_induct)
  case (less pos)
  let ?pp = "(pos - 1) div 2"
  note a = less.prems(2) and b = less.prems(3) and c = less.prems(4)
  show ?case
  proof (cases "0 < pos \<and> lt newitem (heap ! ?pp)")
    case True
    then have pos: "0 < pos" and lt: "k (heap ! ?pp) < k newitem" by (auto simp: ltk)
    from pos have pp: "?pp < pos" by arith
    let ?h = "heap[pos := heap ! ?pp]"
    have eq: "siftdown_loop lt heap newitem 0 pos = siftdown_loop lt ?h newitem 0 ?pp"
      using True by (subst siftdown_loop.simps) (simp add: Let_def)
    have a': "\<forall>i. 0 < i \<and> i < length ?h \<and> i \<noteq> ?pp \<longrightarrow> k (?h ! i) \<le> k (?h ! ((i - 1) div 2))"
    proof (intro allI impI)
      fix i assume i: "0 < i \<and> i < length ?h \<and> i \<noteq> ?pp"
      show "k (?h ! i) \<le> k (?h ! ((i - 1) div 2))"
      proof (cases "i = pos")
        case True
        with less.prems(1) pp show ?thesis by simp
      next
        case ne: False
        show ?thesis
        proof (cases "(i - 1) div 2 = pos")
          case True
          with c i pos ne have "k (heap ! i) \<le> k (heap ! ?pp)" by simp
          with True ne less.prems(1) show ?thesis by simp
        next
          case False
          with a i ne show ?thesis by simp
        qed
      qed
    qed
    have b': "k (?h ! ?pp) \<le> k newitem" using lt pp by simp
    have c': "\<forall>c. 0 < c \<and> c < length ?h \<and> (c - 1) div 2 = ?pp \<and> 0 < ?pp
               \<longrightarrow> k (?h ! c) \<le> k (?h ! ((?pp - 1) div 2))"
    proof (intro allI impI)
      fix c assume c: "0 < c \<and> c < length ?h \<and> (c - 1) div 2 = ?pp \<and> 0 < ?pp"
      then have gp: "(?pp - 1) div 2 < ?pp" by arith
      with pp have gpne: "(?pp - 1) div 2 \<noteq> pos" by simp
      from a c pp less.prems(1) have up: "k (heap ! ?pp) \<le> k (heap ! ((?pp - 1) div 2))"
        by auto
      show "k (?h ! c) \<le> k (?h ! ((?pp - 1) div 2))"
      proof (cases "c = pos")
        case True
        with up gpne less.prems(1) show ?thesis by simp
      next
        case False
        with a c have "k (heap ! c) \<le> k (heap ! ?pp)" by auto
        with up False gpne show ?thesis by simp
      qed
    qed
    have "heap_inv k (siftdown_loop lt ?h newitem 0 ?pp)"
      using pp less.prems(1) a' b' c' by (intro less.IH) simp_all
    with eq show ?thesis by simp
  next
    case False
    then have eq: "siftdown_loop lt heap newitem 0 pos = heap[pos := newitem]"
      by (subst siftdown_loop.simps) (auto simp: Let_def)
    have "heap_inv k (heap[pos := newitem])"
      unfolding heap_inv_def
    proof (intro allI impI)
      fix i assume i: "0 < i \<and> i < length (heap[pos := newitem])"
      show "k (heap[pos := newitem] ! i) \<le> k (heap[pos := newitem] ! ((i - 1) div 2))"
      proof (cases "i = pos")
        case True
        with i have "(i - 1) div 2 \<noteq> pos" by arith
        moreover from False True i have "k newitem \<le> k (heap ! ?pp)" by (auto simp: ltk)
        ultimately show ?thesis using True less.prems(1) by simp
      next
        case ne: False
        show ?thesis
        proof (cases "(i - 1) div 2 = pos")
          case True
          from a i ne have "k (heap ! i) \<le> k (heap ! ((i - 1) div 2))" by simp
          with True b ne less.prems(1) show ?thesis by simp
        next
          case False
          with a i ne show ?thesis by simp
        qed
      qed
    qed
    with eq show ?thesis by simp
  qed
qed

lemma siftup_loop_heap:
  assumes ltk: "\<And>a b. lt a b \<longleftrightarrow> (k b :: nat) < k a"
  shows "siftup_loop lt heap pos = (heap', pos') \<Longrightarrow> pos < length heap
   \<Longrightarrow> \<forall>i. 0 < i \<and> i < length heap \<and> (i - 1) div 2 \<noteq> pos
          \<longrightarrow> k (heap ! i) \<le> k (heap ! ((i - 1) div 2))
   \<Longrightarrow> \<forall>c. 0 < c \<and> c < length heap \<and> (c - 1) div 2 = pos \<and> 0 < pos
          \<longrightarrow> k (heap ! c) \<le> k (heap ! ((pos - 1) div 2))
   \<Longrightarrow> length heap' = length heap \<and> pos' < length heap \<and> length heap \<le> 2 * pos' + 1
       \<and> (\<forall>i. 0 < i \<and> i < length heap \<and> (i - 1) div 2 \<noteq> pos'
            \<longrightarrow> k (heap' ! i) \<le> k (heap' ! ((i - 1) div 2)))"
proof (induction "length heap - pos" arbitrary: heap pos rule: less_induct)
  case less
  let ?c = "2 * pos + 1"
  note a = less.prems(3) and c = less.prems(4)
  show ?case
  proof (cases "?c < length heap")
    case True
    define c' where "c' = (if ?c + 1 < length heap \<and> \<not> lt (heap ! ?c) (heap ! (?c + 1))
                            then ?c + 1 else ?c)"
    have c': "c' < length heap" "pos < c'" "(c' - 1) div 2 = pos" "0 < c'"
      using True by (auto simp: c'_def)
    have big: "\<forall>d. 0 < d \<and> d < length heap \<and> (d - 1) div 2 = pos
                 \<longrightarrow> k (heap ! d) \<le> k (heap ! c')"
    proof (intro allI impI)
      fix d assume d: "0 < d \<and> d < length heap \<and> (d - 1) div 2 = pos"
      then have "d = ?c \<or> d = ?c + 1" by arith
      then show "k (heap ! d) \<le> k (heap ! c')"
        using d by (auto simp: c'_def ltk)
    qed
    let ?h = "heap[pos := heap ! c']"
    have "siftup_loop lt heap pos = siftup_loop lt ?h c'"
      by (subst siftup_loop.simps) (simp only: Let_def c'_def True if_True)
    with less.prems(1) have eq: "siftup_loop lt ?h c' = (heap', pos')" by simp
    have a': "\<forall>i. 0 < i \<and> i < length ?h \<and> (i - 1) div 2 \<noteq> c'
               \<longrightarrow> k (?h ! i) \<le> k (?h ! ((i - 1) div 2))"
    proof (intro allI impI)
      fix i assume i: "0 < i \<and> i < length ?h \<and> (i - 1) div 2 \<noteq> c'"
      show "k (?h ! i) \<le> k (?h ! ((i - 1) div 2))"
      proof (cases "(i - 1) div 2 = pos")
        case True
        with i have ne: "i \<noteq> pos" by arith
        from big i True have "k (heap ! i) \<le> k (heap ! c')" by simp
        with True ne less.prems(2) show ?thesis by simp
      next
        case False
        show ?thesis
        proof (cases "i = pos")
          case True
          with i c c' have "k (heap ! c') \<le> k (heap ! ((pos - 1) div 2))" by auto
          moreover from True i have "(i - 1) div 2 \<noteq> pos" by arith
          ultimately show ?thesis using True less.prems(2) by simp
        next
          case ne: False
          with a i False show ?thesis by simp
        qed
      qed
    qed
    have cc: "\<forall>d. 0 < d \<and> d < length ?h \<and> (d - 1) div 2 = c' \<and> 0 < c'
               \<longrightarrow> k (?h ! d) \<le> k (?h ! ((c' - 1) div 2))"
    proof (intro allI impI)
      fix d assume d: "0 < d \<and> d < length ?h \<and> (d - 1) div 2 = c' \<and> 0 < c'"
      with c' have dne: "d \<noteq> pos" by arith
      from d c' have "(d - 1) div 2 \<noteq> pos" by simp
      with a d have "k (heap ! d) \<le> k (heap ! c')" by auto
      with dne c' less.prems(2) show "k (?h ! d) \<le> k (?h ! ((c' - 1) div 2))" by simp
    qed
    have "length heap' = length ?h \<and> pos' < length ?h \<and> length ?h \<le> 2 * pos' + 1
       \<and> (\<forall>i. 0 < i \<and> i < length ?h \<and> (i - 1) div 2 \<noteq> pos'
            \<longrightarrow> k (heap' ! i) \<le> k (heap' ! ((i - 1) div 2)))"
      using c' less.prems(2) a' cc by (intro less.hyps [OF _ eq]) simp_all
    then show ?thesis by simp
  next
    case False
    with less.prems(1) have "heap' = heap" "pos' = pos"
      by (subst (asm) siftup_loop.simps, simp add: Let_def)+
    with False less.prems a show ?thesis by simp
  qed
qed

lemma heappush_heap:
  assumes ltk: "\<And>a b. lt a b \<longleftrightarrow> k b < k a" and h: "heap_inv k heap"
  shows "heap_inv k (heappush lt heap item)"
  unfolding heappush_def siftdown_def
proof (rule siftdown_loop_heap [OF ltk])
  show "length heap < length (heap @ [item])" by simp
  show "\<forall>i. 0 < i \<and> i < length (heap @ [item]) \<and> i \<noteq> length heap
         \<longrightarrow> k ((heap @ [item]) ! i) \<le> k ((heap @ [item]) ! ((i - 1) div 2))"
  proof (intro allI impI)
    fix i assume i: "0 < i \<and> i < length (heap @ [item]) \<and> i \<noteq> length heap"
    then have "i < length heap" "(i - 1) div 2 < length heap" by auto
    with h i show "k ((heap @ [item]) ! i) \<le> k ((heap @ [item]) ! ((i - 1) div 2))"
      by (simp add: nth_append heap_inv_def)
  qed
  show "k ((heap @ [item]) ! length heap) \<le> k ((heap @ [item]) ! length heap)" by simp
  show "\<forall>c. 0 < c \<and> c < length (heap @ [item]) \<and> (c - 1) div 2 = length heap \<and> 0 < length heap
         \<longrightarrow> k ((heap @ [item]) ! c) \<le> k ((heap @ [item]) ! ((length heap - 1) div 2))"
  proof (intro allI impI)
    fix c assume "0 < c \<and> c < length (heap @ [item]) \<and> (c - 1) div 2 = length heap
                  \<and> 0 < length heap"
    then have False by (simp, arith)
    then show "k ((heap @ [item]) ! c) \<le> k ((heap @ [item]) ! ((length heap - 1) div 2))" ..
  qed
qed

lemma siftup_heap:
  assumes ltk: "\<And>a b. lt a b \<longleftrightarrow> k b < k a"
    and ne: "0 < length heap"
    and a: "\<forall>i. 0 < i \<and> i < length heap \<and> (i - 1) div 2 \<noteq> 0
              \<longrightarrow> k (heap ! i) \<le> k (heap ! ((i - 1) div 2))"
  shows "heap_inv k (siftup lt heap 0)"
proof -
  obtain heap' pos' where l: "siftup_loop lt heap 0 = (heap', pos')"
    by (cases "siftup_loop lt heap 0")
  from siftup_loop_heap [OF ltk l ne a]
  have p: "length heap' = length heap" "pos' < length heap" "length heap \<le> 2 * pos' + 1"
    "\<forall>i. 0 < i \<and> i < length heap \<and> (i - 1) div 2 \<noteq> pos'
       \<longrightarrow> k (heap' ! i) \<le> k (heap' ! ((i - 1) div 2))"
    by simp_all
  let ?H = "heap'[pos' := heap ! 0]"
  have "heap_inv k (siftdown_loop lt ?H (?H ! pos') 0 pos')"
  proof (rule siftdown_loop_heap [OF ltk])
    show "pos' < length ?H" using p by simp
    show "\<forall>i. 0 < i \<and> i < length ?H \<and> i \<noteq> pos' \<longrightarrow> k (?H ! i) \<le> k (?H ! ((i - 1) div 2))"
    proof (intro allI impI)
      fix i assume i: "0 < i \<and> i < length ?H \<and> i \<noteq> pos'"
      with p(3) p(1) have "(i - 1) div 2 \<noteq> pos'" by auto
      with p i show "k (?H ! i) \<le> k (?H ! ((i - 1) div 2))" by simp
    qed
    show "k (?H ! pos') \<le> k (?H ! pos')" by simp
    show "\<forall>c. 0 < c \<and> c < length ?H \<and> (c - 1) div 2 = pos' \<and> 0 < pos'
           \<longrightarrow> k (?H ! c) \<le> k (?H ! ((pos' - 1) div 2))"
      using p(1,3) by auto
  qed
  with l show ?thesis by (simp add: siftup_def siftdown_def Let_def)
qed

lemma heappop_heap:
  assumes ltk: "\<And>a b. lt a b \<longleftrightarrow> k b < k a" and h: "heap_inv k heap"
    and pop: "heappop lt heap = Some (item, rest)"
  shows "heap_inv k rest" and "\<forall>y \<in> set heap. k y \<le> k item"
proof -
  from pop have ne: "heap \<noteq> []" by (auto simp: heappop_def)
  then obtain b x where hb: "heap = b @ [x]" by (cases heap rule: rev_cases) auto
  have item: "item = heap ! 0"
    using pop hb by (cases "b = []") (auto simp: heappop_def Let_def nth_append)
  show "\<forall>y \<in> set heap. k y \<le> k item"
    unfolding item using heap_inv_root [OF h] by (auto simp: in_set_conv_nth)
  show "heap_inv k rest"
  proof (cases "b = []")
    case True
    with pop hb show ?thesis by (auto simp: heappop_def heap_inv_def)
  next
    case False
    with pop hb have r: "rest = siftup lt (b[0 := x]) 0" by (auto simp: heappop_def Let_def)
    have "heap_inv k (siftup lt (b[0 := x]) 0)"
    proof (rule siftup_heap [OF ltk])
      show "0 < length (b[0 := x])" using False by simp
      show "\<forall>i. 0 < i \<and> i < length (b[0 := x]) \<and> (i - 1) div 2 \<noteq> 0
             \<longrightarrow> k (b[0 := x] ! i) \<le> k (b[0 := x] ! ((i - 1) div 2))"
      proof (intro allI impI)
        fix i assume i: "0 < i \<and> i < length (b[0 := x]) \<and> (i - 1) div 2 \<noteq> 0"
        then have "i < length heap" "(i - 1) div 2 < length b" "i < length b" using hb by auto
        with h i hb show "k (b[0 := x] ! i) \<le> k (b[0 := x] ! ((i - 1) div 2))"
          by (auto simp: heap_inv_def nth_append dest!: spec [of _ i])
      qed
    qed
    with r show ?thesis by simp
  qed
qed

section \<open>The heap of pending placeholders stays a heap\<close>

lemma heap_inv_cong:
  "heap_inv k h \<Longrightarrow> \<forall>a \<in> set h. k' a = k a \<Longrightarrow> heap_inv k' h"
  unfolding heap_inv_def
proof (intro allI impI)
  fix i assume h: "\<forall>i. 0 < i \<and> i < length h \<longrightarrow> k (h ! i) \<le> k (h ! ((i - 1) div 2))"
    and e: "\<forall>a \<in> set h. k' a = k a" and i: "0 < i \<and> i < length h"
  then have "(i - 1) div 2 < length h" by auto
  with e i have "k' (h ! i) = k (h ! i)" "k' (h ! ((i - 1) div 2)) = k (h ! ((i - 1) div 2))"
    by auto
  with h i show "k' (h ! i) \<le> k' (h ! ((i - 1) div 2))" by simp
qed

lemma heap_ok_cong:
  assumes "heap_ok s h"
    and "\<forall>a \<in> set h. objs s' a = objs s a" and "next_obj s \<le> next_obj s'"
  shows "heap_ok s' h"
proof -
  from assms(1) have "heap_inv (\<lambda>a. mcount (objs s a)) h" by (simp add: heap_ok_def)
  then have "heap_inv (\<lambda>a. mcount (objs s' a)) h"
    by (rule heap_inv_cong) (use assms(2) in simp)
  moreover from assms have "\<forall>a \<in> set h. is_more s' a \<and> a < next_obj s'"
    by (fastforce simp: heap_ok_def is_more_def)
  ultimately show ?thesis by (simp add: heap_ok_def)
qed

lemma heap_ok_empty [simp]: "heap_ok s []"
  by (simp add: heap_ok_def heap_inv_def)

lemma more_lt_key: "more_lt s a b \<longleftrightarrow> mcount (objs s b) < mcount (objs s a)"
  by (simp add: more_lt_def)

lemma heappush_set [simp]: "set (heappush lt h a) = insert a (set h)"
  using heappush_mset [of lt h a] by (metis set_mset_add_mset_insert set_mset_mset)

lemma heap_ok_push:
  "heap_ok s h \<Longrightarrow> is_more s a \<Longrightarrow> a < next_obj s \<Longrightarrow> heap_ok s (heappush (more_lt s) h a)"
  by (simp add: heap_ok_def heappush_heap [OF more_lt_key])

lemma heap_ok_pop:
  assumes "heap_ok s h" and "heappop (more_lt s) h = Some (item, rest)"
  shows "heap_ok s rest" and "\<forall>b \<in> set h. mcount (objs s b) \<le> mcount (objs s item)"
proof -
  from assms(1) have hi: "heap_inv (\<lambda>a. mcount (objs s a)) h" by (simp add: heap_ok_def)
  from heappop_heap [OF more_lt_key hi assms(2)]
  have "heap_inv (\<lambda>a. mcount (objs s a)) rest"
    and m: "\<forall>b \<in> set h. mcount (objs s b) \<le> mcount (objs s item)" by auto
  moreover from heappop_set [OF assms(2)] have "set rest \<subseteq> set h" by auto
  ultimately show "heap_ok s rest" using assms(1) by (auto simp: heap_ok_def)
  from m show "\<forall>b \<in> set h. mcount (objs s b) \<le> mcount (objs s item)" .
qed

lemma heap_ok_set_remove_from [simp]: "heap_ok (set_remove_from s a l) h = heap_ok s h"
  by (simp add: heap_ok_def)

lemma store_ok_set_remove_from [simp]: "store_ok (set_remove_from s a l) = store_ok s"
  by (simp add: store_ok_def)

subsection \<open>The gather\<close>

lemma gather_loop_ok:
  "gather_loop fuel tree pt queue h s = Some (h', s') \<Longrightarrow> store_ok s \<Longrightarrow> heap_ok s h
   \<Longrightarrow> \<forall>qe \<in> set queue. snd qe < next_obj s
   \<Longrightarrow> store_ok s' \<and> heap_ok s' h' \<and> next_obj s' = next_obj s \<and> lists s' = lists s
       \<and> is_more s' = is_more s
       \<and> (\<forall>a. \<not> is_more s a \<longrightarrow> objs s' a = objs s a)
       \<and> (\<forall>a. mcount (objs s' a) = mcount (objs s a))
       \<and> comments_by_id s' = comments_by_id s \<and> next_list s' = next_list s"
proof (induction fuel arbitrary: queue h s)
  case 0
  then show ?case by simp
next
  case (Suc n)
  show ?case
  proof (cases queue)
    case Nil
    with Suc.prems show ?thesis by simp
  next
    case (Cons qe rest)
    obtain parent comment where qe: "qe = (parent, comment)" by (cases qe)
    from Suc.prems(4) Cons qe have c: "comment < next_obj s"
      and r: "\<forall>qe \<in> set rest. snd qe < next_obj s" by auto
    show ?thesis
    proof (cases "objs s comment")
      case (Comment nm p root rl sb)
      let ?q = "rest @ map (\<lambda>item. (Some comment, item)) (lists s rl)"
      from Suc.prems(1) Cons qe Comment
      have g: "gather_loop n tree pt ?q h s = Some (h', s')" by simp
      have "\<forall>qe \<in> set ?q. snd qe < next_obj s"
        using r Suc.prems(2) by (auto simp: store_ok_def)
      from Suc.IH [OF g Suc.prems(2,3) this] show ?thesis .
    next
      case (MoreComments nm cnt ch rf sb)
      define target where "target = (case parent of Some p \<Rightarrow> replies (objs s p)
                                     | None \<Rightarrow> fallback s tree pt)"
      let ?s1 = "set_remove_from s comment target"
      from Suc.prems(1) Cons qe MoreComments
      have g: "gather_loop n tree pt rest (heappush (more_lt s) h comment) ?s1 = Some (h', s')"
        by (simp add: Let_def target_def)
      from MoreComments have im: "is_more s comment" by simp
      have "heap_ok ?s1 (heappush (more_lt s) h comment)"
        using heap_ok_push [OF Suc.prems(3) im c] by simp
      moreover have "store_ok ?s1" using Suc.prems(2) by simp
      moreover have "\<forall>qe \<in> set rest. snd qe < next_obj ?s1" using r by simp
      ultimately have "store_ok s' \<and> heap_ok s' h' \<and> next_obj s' = next_obj ?s1
          \<and> lists s' = lists ?s1 \<and> is_more s' = is_more ?s1
          \<and> (\<forall>a. \<not> is_more ?s1 a \<longrightarrow> objs s' a = objs ?s1 a)
          \<and> (\<forall>a. mcount (objs s' a) = mcount (objs ?s1 a))
          \<and> comments_by_id s' = comments_by_id ?s1 \<and> next_list s' = next_list ?s1"
        by (intro Suc.IH [OF g])
      then show ?thesis
        by (simp add: fun_eq_iff objs_set_remove_from_comment)
    qed
  qed
qed

section \<open>Creating the objects of an answer\<close>

lemma grown_refl [simp]: "grown s s"
  by (simp add: grown_def)

lemma grown_trans: "grown s s1 \<Longrightarrow> grown s1 s2 \<Longrightarrow> grown s s2"
  unfolding grown_def
  apply (intro conjI allI impI)
        apply simp
       apply simp
      apply (metis le_trans less_le_trans not_le)
     apply (metis le_trans less_le_trans not_le)
    apply (metis (no_types, lifting) le_trans less_le_trans not_le)
   apply simp
  apply simp
  done

lemma grown_alloc_obj:
  "alloc_obj n s = (a, s') \<Longrightarrow> grown s s' \<and> a = next_obj s \<and> next_obj s' = Suc a
     \<and> objs s' a = n \<and> next_list s' = next_list s"
  by (auto simp: alloc_obj_def grown_def)

lemma grown_list_then_obj:
  assumes g: "grown s s1" and as: "\<forall>b \<in> set as. next_obj s \<le> b \<and> b < next_obj s1"
    and l: "alloc_list as s1 = (l, s2)" and o: "alloc_obj n s2 = (a, s')"
  shows "grown s s'" and "a = next_obj s1" and "next_obj s' = Suc (next_obj s1)"
    and "objs s' a = n" and "l = next_list s1" and "lists s' l = as"
    and "\<forall>b. b < next_obj s1 \<longrightarrow> objs s' b = objs s1 b"
    and "\<forall>k. k < next_list s1 \<longrightarrow> lists s' k = lists s1 k"
    and "next_list s' = Suc (next_list s1)"
proof -
  from l o have s': "s' = s1\<lparr>lists := (lists s1)(next_list s1 := as),
                            next_list := Suc (next_list s1),
                            objs := (objs s1)(next_obj s1 := n),
                            next_obj := Suc (next_obj s1)\<rparr>"
    and a: "a = next_obj s1" and l': "l = next_list s1"
    by (auto simp: alloc_list_def alloc_obj_def)
  show "a = next_obj s1" "l = next_list s1" by fact+
  show "next_obj s' = Suc (next_obj s1)" "objs s' a = n" "lists s' l = as"
    "\<forall>b. b < next_obj s1 \<longrightarrow> objs s' b = objs s1 b"
    "\<forall>k. k < next_list s1 \<longrightarrow> lists s' k = lists s1 k"
    "next_list s' = Suc (next_list s1)"
    by (simp_all add: s' a l')
  show "grown s s'"
    unfolding grown_def
  proof (intro conjI allI impI)
    show "next_obj s \<le> next_obj s'" "next_list s \<le> next_list s'"
      using g by (simp_all add: s' grown_def)
    show "comments_by_id s' = comments_by_id s" "fetched s' = fetched s"
      using g by (simp_all add: s' grown_def)
  next
    fix b assume "b < next_obj s \<or> next_obj s' \<le> b"
    then show "objs s' b = objs s b" using g by (auto simp: s' grown_def)
  next
    fix k assume "k < next_list s \<or> next_list s' \<le> k"
    then show "lists s' k = lists s k" using g by (auto simp: s' grown_def)
  next
    fix k assume k: "next_list s \<le> k \<and> k < next_list s'"
    show "\<forall>b \<in> set (lists s' k). next_obj s \<le> b \<and> b < next_obj s'"
    proof (cases "k = next_list s1")
      case True
      with as show ?thesis by (auto simp: s')
    next
      case False
      with k have "k < next_list s1" by (simp add: s')
      with k g False show ?thesis by (fastforce simp: s' grown_def)
    qed
  qed
qed

lemma objectify_grown:
  "objectify j s = (a, s') \<Longrightarrow>
     grown s s' \<and> next_obj s \<le> a \<and> a < next_obj s'
     \<and> (jclean j \<longrightarrow> (\<forall>b. next_obj s \<le> b \<and> b < next_obj s' \<longrightarrow> \<not> is_more s' b))"
  "objectify_list js s = (as, s') \<Longrightarrow>
     grown s s' \<and> (\<forall>b \<in> set as. next_obj s \<le> b \<and> b < next_obj s')
     \<and> ((\<forall>j \<in> set js. jclean j)
          \<longrightarrow> (\<forall>b. next_obj s \<le> b \<and> b < next_obj s' \<longrightarrow> \<not> is_more s' b))"
proof (induction j s and js s arbitrary: a s' and as s' rule: objectify_objectify_list.induct)
  case (1 n c ch s)
  from grown_alloc_obj [of "MoreComments n c ch None False" s a s'] "1.prems"
  show ?case by simp
next
  case (2 n p root js s)
  obtain as s1 where o: "objectify_list js s = (as, s1)" by (cases "objectify_list js s")
  obtain l s2 where l: "alloc_list as s1 = (l, s2)" by (cases "alloc_list as s1")
  from "2.prems" o l have ao: "alloc_obj (Comment n p root l False) s2 = (a, s')" by simp
  from "2.IH" [OF o] have g: "grown s s1"
    and as: "\<forall>b \<in> set as. next_obj s \<le> b \<and> b < next_obj s1"
    and cl: "(\<forall>j \<in> set js. jclean j)
          \<longrightarrow> (\<forall>b. next_obj s \<le> b \<and> b < next_obj s1 \<longrightarrow> \<not> is_more s1 b)"
    by auto
  note r = grown_list_then_obj [OF g as l ao]
  from g have le: "next_obj s \<le> next_obj s1" by (simp add: grown_def)
  have "jclean (JComment n p root js) \<longrightarrow>
          (\<forall>b. next_obj s \<le> b \<and> b < next_obj s' \<longrightarrow> \<not> is_more s' b)"
  proof (intro impI allI)
    fix b assume c: "jclean (JComment n p root js)" and b: "next_obj s \<le> b \<and> b < next_obj s'"
    show "\<not> is_more s' b"
    proof (cases "b = a")
      case True
      with r(4) show ?thesis by (simp add: is_more_def)
    next
      case False
      with b r(2,3) have "b < next_obj s1" by simp
      with r(7) cl c b show ?thesis by (simp add: is_more_def)
    qed
  qed
  with r(1,2,3) le show ?case by simp
next
  case (3 s)
  then show ?case by auto
next
  case (4 j js s)
  obtain a1 s1 where o: "objectify j s = (a1, s1)" by (cases "objectify j s")
  obtain as1 s2 where l: "objectify_list js s1 = (as1, s2)" by (cases "objectify_list js s1")
  from "4.prems" o l have e: "as = a1 # as1" "s' = s2" by auto
  note ih1 = "4.IH"(1) [OF o] and ih2 = "4.IH"(2) [OF o [symmetric] refl l]
  from ih1 ih2 have g: "grown s s2" by (blast intro: grown_trans)
  from ih1 ih2 have le: "next_obj s \<le> next_obj s1" "next_obj s1 \<le> next_obj s2"
    by (simp_all add: grown_def)
  have r: "\<forall>b \<in> set (a1 # as1). next_obj s \<le> b \<and> b < next_obj s2"
    using ih1 ih2 le by fastforce
  have "(\<forall>j' \<in> set (j # js). jclean j')
          \<longrightarrow> (\<forall>b. next_obj s \<le> b \<and> b < next_obj s2 \<longrightarrow> \<not> is_more s2 b)"
  proof (intro impI allI)
    fix b assume c: "\<forall>j' \<in> set (j # js). jclean j'" and b: "next_obj s \<le> b \<and> b < next_obj s2"
    show "\<not> is_more s2 b"
    proof (cases "b < next_obj s1")
      case True
      with ih1 c b have "\<not> is_more s1 b" by simp
      moreover from ih2 True have "objs s2 b = objs s1 b" by (simp add: grown_def)
      ultimately show ?thesis by (simp add: is_more_def)
    next
      case False
      with ih2 c b show ?thesis by simp
    qed
  qed
  with g r e show ?case by simp
qed

lemma store_ok_grown: "store_ok s \<Longrightarrow> grown s s' \<Longrightarrow> store_ok s'"
  unfolding store_ok_def grown_def
  by (metis (no_types, lifting) le_trans less_le_trans not_le)

lemma heap_ok_grown: "heap_ok s h \<Longrightarrow> grown s s' \<Longrightarrow> heap_ok s' h"
  by (rule heap_ok_cong) (auto simp: heap_ok_def grown_def)

lemma fetch_comments_grown:
  assumes "fetch_comments fetch item s = Inr (nc, s1)"
  obtains js as s0 where "fetch s item = Inr js"
    and "objectify_list js (s\<lparr>fetched := fetched s @ [item]\<rparr>) = (as, s0)"
    and "grown (s\<lparr>fetched := fetched s @ [item]\<rparr>) s1"
    and "lists s1 nc = as" and "nc = next_list s0" and "next_list s1 = Suc nc"
    and "next_obj s1 = next_obj s0"
    and "\<forall>b \<in> set as. next_obj s \<le> b \<and> b < next_obj s1"
    and "(\<forall>j \<in> set js. jclean j)
          \<longrightarrow> (\<forall>b. next_obj s \<le> b \<and> b < next_obj s1 \<longrightarrow> \<not> is_more s1 b)"
    and "\<forall>b. b < next_obj s0 \<longrightarrow> objs s1 b = objs s0 b"
    and "\<forall>k. k < next_list s0 \<longrightarrow> lists s1 k = lists s0 k"
proof -
  let ?s = "s\<lparr>fetched := fetched s @ [item]\<rparr>"
  from assms obtain js where f: "fetch s item = Inr js"
    by (cases "fetch s item") (auto simp: fetch_comments_def)
  obtain as s0 where o: "objectify_list js ?s = (as, s0)" by (cases "objectify_list js ?s")
  from assms f o have a: "alloc_list as s0 = (nc, s1)" by (simp add: fetch_comments_def)
  then have s1: "s1 = s0\<lparr>lists := (lists s0)(next_list s0 := as), next_list := Suc (next_list s0)\<rparr>"
    and nc: "nc = next_list s0" by (auto simp: alloc_list_def)
  from objectify_grown(2) [OF o] have g: "grown ?s s0"
    and as: "\<forall>b \<in> set as. next_obj ?s \<le> b \<and> b < next_obj s0"
    and cl: "(\<forall>j \<in> set js. jclean j)
          \<longrightarrow> (\<forall>b. next_obj ?s \<le> b \<and> b < next_obj s0 \<longrightarrow> \<not> is_more s0 b)"
    by auto
  have g1: "grown ?s s1"
    unfolding grown_def
  proof (intro conjI allI impI)
    show "next_obj ?s \<le> next_obj s1" "next_list ?s \<le> next_list s1"
      "comments_by_id s1 = comments_by_id ?s" "fetched s1 = fetched ?s"
      using g by (simp_all add: s1 grown_def)
  next
    fix b assume "b < next_obj ?s \<or> next_obj s1 \<le> b"
    then show "objs s1 b = objs ?s b" using g by (auto simp: s1 grown_def)
  next
    fix k assume "k < next_list ?s \<or> next_list s1 \<le> k"
    then show "lists s1 k = lists ?s k" using g by (auto simp: s1 grown_def)
  next
    fix k assume k: "next_list ?s \<le> k \<and> k < next_list s1"
    show "\<forall>b \<in> set (lists s1 k). next_obj ?s \<le> b \<and> b < next_obj s1"
    proof (cases "k = next_list s0")
      case True
      with as show ?thesis by (auto simp: s1)
    next
      case False
      with k have "k < next_list s0" by (simp add: s1)
      with k g False show ?thesis by (fastforce simp: s1 grown_def)
    qed
  qed
  show thesis
  proof (rule that [OF f o g1])
    show "lists s1 nc = as" "nc = next_list s0" "next_list s1 = Suc nc"
      "next_obj s1 = next_obj s0" by (simp_all add: s1 nc)
    show "\<forall>b \<in> set as. next_obj s \<le> b \<and> b < next_obj s1" using as by (simp add: s1)
    show "(\<forall>j \<in> set js. jclean j)
          \<longrightarrow> (\<forall>b. next_obj s \<le> b \<and> b < next_obj s1 \<longrightarrow> \<not> is_more s1 b)"
      using cl by (simp add: s1 is_more_def)
    show "\<forall>b. b < next_obj s0 \<longrightarrow> objs s1 b = objs s0 b"
      "\<forall>k. k < next_list s0 \<longrightarrow> lists s1 k = lists s0 k" by (simp_all add: s1)
  qed
qed

section \<open>A turn of the loop keeps the store and the heap in order\<close>

subsection \<open>Attaching a node to the discussion\<close>

lemma lists_set_submission [simp]: "lists (set_submission s a) = lists s"
  by (simp add: set_submission_def split: node.splits)

lemma next_obj_set_submission [simp]: "next_obj (set_submission s a) = next_obj s"
  by (simp add: set_submission_def split: node.splits)

lemma next_list_set_submission [simp]: "next_list (set_submission s a) = next_list s"
  by (simp add: set_submission_def split: node.splits)

lemma is_more_set_submission [simp]: "is_more (set_submission s a) b = is_more s b"
  by (cases "objs s a") (auto simp: set_submission_def is_more_def)

lemma objs_set_submission_other: "b \<noteq> a \<Longrightarrow> objs (set_submission s a) b = objs s b"
  by (simp add: set_submission_def split: node.splits)

lemma mcount_set_submission:
  "is_more s b \<Longrightarrow> mcount (objs (set_submission s a) b) = mcount (objs s b)"
  by (cases "objs s a") (auto simp: set_submission_def is_more_def split: node.splits)

lemma remove_from_set_submission:
  "is_more s b \<Longrightarrow> remove_from (objs (set_submission s a) b) = remove_from (objs s b)"
  by (cases "objs s a") (auto simp: set_submission_def is_more_def split: node.splits)

lemma index_set_submission_more:
  "is_more s a \<Longrightarrow> comments_by_id (set_submission s a) = comments_by_id s"
  by (auto simp: set_submission_def is_more_def split: node.splits)

lemma store_ok_set_submission [simp]: "store_ok (set_submission s a) = store_ok s"
  by (simp add: store_ok_def)

lemma heap_ok_same_counts:
  assumes "heap_ok s h"
    and "\<forall>a \<in> set h. mcount (objs s' a) = mcount (objs s a) \<and> is_more s' a"
    and "next_obj s \<le> next_obj s'"
  shows "heap_ok s' h"
proof -
  from assms(1) have "heap_inv (\<lambda>a. mcount (objs s a)) h" by (simp add: heap_ok_def)
  then have "heap_inv (\<lambda>a. mcount (objs s' a)) h"
    by (rule heap_inv_cong) (use assms(2) in simp)
  moreover from assms have "\<forall>a \<in> set h. is_more s' a \<and> a < next_obj s'"
    by (fastforce simp: heap_ok_def)
  ultimately show ?thesis by (simp add: heap_ok_def)
qed

lemma heap_ok_set_submission: "heap_ok s h \<Longrightarrow> heap_ok (set_submission s a) h"
  by (rule heap_ok_same_counts) (auto simp: heap_ok_def mcount_set_submission)

lemma more_lt_set_submission:
  "is_more s a \<Longrightarrow> is_more s b
   \<Longrightarrow> more_lt (set_submission s c) a b = more_lt s a b"
  by (simp add: more_lt_def mcount_set_submission)

subsection \<open>Lines 208 to 210\<close>

lemma push_all_ok:
  "push_all found h s = (h', s') \<Longrightarrow> heap_ok s h
   \<Longrightarrow> \<forall>m \<in> set found. is_more s m \<and> m < next_obj s
   \<Longrightarrow> heap_ok s' h' \<and> mset h' = mset h + mset found
       \<and> lists s' = lists s \<and> next_obj s' = next_obj s \<and> next_list s' = next_list s
       \<and> is_more s' = is_more s \<and> comments_by_id s' = comments_by_id s
       \<and> (\<forall>b. is_more s b \<longrightarrow> remove_from (objs s' b) = remove_from (objs s b))
       \<and> (\<forall>b. \<not> is_more s b \<longrightarrow> objs s' b = objs s b)"
proof (induction found arbitrary: h s)
  case Nil
  then show ?case by simp
next
  case (Cons m found)
  let ?s1 = "set_submission s m"
  from Cons.prems(1) have p: "push_all found (heappush (more_lt ?s1) h m) ?s1 = (h', s')"
    by (simp add: Let_def)
  from Cons.prems(3) have m: "is_more s m" "m < next_obj s" by auto
  have "heap_ok ?s1 (heappush (more_lt ?s1) h m)"
    using heap_ok_set_submission [OF Cons.prems(2)] m by (intro heap_ok_push) simp_all
  moreover have "\<forall>m' \<in> set found. is_more ?s1 m' \<and> m' < next_obj ?s1"
    using Cons.prems(3) by simp
  ultimately have ih: "heap_ok s' h' \<and> mset h' = mset (heappush (more_lt ?s1) h m) + mset found
       \<and> lists s' = lists ?s1 \<and> next_obj s' = next_obj ?s1 \<and> next_list s' = next_list ?s1
       \<and> is_more s' = is_more ?s1 \<and> comments_by_id s' = comments_by_id ?s1
       \<and> (\<forall>b. is_more ?s1 b \<longrightarrow> remove_from (objs s' b) = remove_from (objs ?s1 b))
       \<and> (\<forall>b. \<not> is_more ?s1 b \<longrightarrow> objs s' b = objs ?s1 b)"
    by (intro Cons.IH [OF p])
  have "\<forall>b. \<not> is_more s b \<longrightarrow> objs ?s1 b = objs s b"
    using m by (metis objs_set_submission_other)
  with ih m show ?case
    by (simp add: fun_eq_iff remove_from_set_submission index_set_submission_more)
qed

subsection \<open>Inserting and removing\<close>

lemma insert_comment_Inr:
  "insert_comment self c s = Inr (u, s')
   \<Longrightarrow> \<exists>l. s' = list_append (set_submission s c) l c
           \<and> name (objs s c) \<notin> dom (comments_by_id s)"
  by (auto simp: insert_comment_def Let_def split: if_splits node.splits option.splits)

lemma remove_item_Inr:
  "remove_item item s = Inr (u, s')
   \<Longrightarrow> \<exists>l. remove_from (objs s item) = Some l \<and> item \<in> set (lists s l) \<and> is_more s item
           \<and> s' = s\<lparr>lists := (lists s)(l := remove1 item (lists s l))\<rparr>"
  by (auto simp: remove_item_def list_remove_def is_more_def
           split: if_splits node.splits option.splits)

lemma store_ok_list_append:
  "store_ok s \<Longrightarrow> c < next_obj s \<Longrightarrow> store_ok (list_append s l c)"
  by (auto simp: store_ok_def list_append_def)

lemma heap_ok_list_append [simp]: "heap_ok (list_append s l c) h = heap_ok s h"
  by (simp add: heap_ok_def list_append_def is_more_def)

lemma insert_all_ok:
  "insert_all self cs s = Inr (u, s') \<Longrightarrow> store_ok s \<Longrightarrow> heap_ok s h
   \<Longrightarrow> \<forall>c \<in> set cs. c < next_obj s
   \<Longrightarrow> store_ok s' \<and> heap_ok s' h \<and> next_obj s' = next_obj s"
proof (induction cs arbitrary: s)
  case Nil
  then show ?case by simp
next
  case (Cons c cs)
  from Cons.prems(1) obtain u1 s1 where i: "insert_comment self c s = Inr (u1, s1)"
    and r: "insert_all self cs s1 = Inr (u, s')"
    by (auto split: sum.splits)
  from insert_comment_Inr [OF i] obtain l where
    s1: "s1 = list_append (set_submission s c) l c" by blast
  from Cons.prems have c: "c < next_obj s" by simp
  have 1: "store_ok s1" unfolding s1 using Cons.prems(2) c by (intro store_ok_list_append) simp_all
  have 2: "heap_ok s1 h" unfolding s1 using Cons.prems(3) by (simp add: heap_ok_set_submission)
  have 3: "next_obj s1 = next_obj s" by (simp add: s1 list_append_def)
  from Cons.IH [OF r 1 2] Cons.prems(4) 3 show ?case by simp
qed

lemma remove_item_ok:
  assumes "remove_item item s = Inr (u, s')" and "store_ok s" and "heap_ok s h"
  shows "store_ok s' \<and> heap_ok s' h"
proof -
  from remove_item_Inr [OF assms(1)] obtain l where
    s': "s' = s\<lparr>lists := (lists s)(l := remove1 item (lists s l))\<rparr>" by blast
  have "set (remove1 item (lists s l)) \<subseteq> set (lists s l)" by (rule set_remove1_subset)
  with assms(2) have "store_ok s'" by (auto simp: s' store_ok_def)
  moreover from assms(3) have "heap_ok s' h" by (simp add: s' heap_ok_def is_more_def)
  ultimately show ?thesis by simp
qed

subsection \<open>One fetch, one turn\<close>

lemma resolve_ok:
  assumes r: "resolve g fetch self item h s = Some (Inr (h', s'))"
    and so: "store_ok s" and ho: "heap_ok s h"
  shows "store_ok s' \<and> heap_ok s' h'"
proof -
  from r obtain nc s1 where f: "fetch_comments fetch item s = Inr (nc, s1)"
    by (cases "fetch_comments fetch item s") (auto simp: resolve_def)
  let ?s = "s\<lparr>fetched := fetched s @ [item]\<rparr>"
  from fetch_comments_grown [OF f] have g1: "grown ?s s1" by metis
  have "store_ok ?s" "heap_ok ?s h"
    using so ho by (simp_all add: store_ok_def heap_ok_def is_more_def)
  with g1 have so1: "store_ok s1" and ho1: "heap_ok s1 h"
    by (blast intro: store_ok_grown heap_ok_grown)+
  from r f obtain found s2 where
    gl: "gather_loop g nc (comments self) (map (\<lambda>x. (None, x)) (lists s1 nc)) [] s1
           = Some (found, s2)"
    by (auto simp: resolve_def gather_more_comments_def split: option.splits)
  have "\<forall>qe \<in> set (map (\<lambda>x. (None, x)) (lists s1 nc)). snd qe < next_obj s1"
    using so1 by (auto simp: store_ok_def)
  from gather_loop_ok [OF gl so1 heap_ok_empty this]
  have so2: "store_ok s2" and hf: "heap_ok s2 found" and n2: "next_obj s2 = next_obj s1"
    and l2: "lists s2 = lists s1" and im2: "is_more s2 = is_more s1"
    and mc2: "\<forall>a. mcount (objs s2 a) = mcount (objs s1 a)"
    by auto
  have ho2: "heap_ok s2 h"
    using ho1 by (rule heap_ok_same_counts) (use ho1 in \<open>auto simp: mc2 im2 n2 heap_ok_def\<close>)
  obtain h1 s3 where p: "push_all found h s2 = (h1, s3)" by (cases "push_all found h s2")
  from hf have "\<forall>m \<in> set found. is_more s2 m \<and> m < next_obj s2" by (simp add: heap_ok_def)
  from push_all_ok [OF p ho2 this]
  have ho3: "heap_ok s3 h1" and l3: "lists s3 = lists s2" and n3: "next_obj s3 = next_obj s2"
    by auto
  from so2 l3 n3 have so3: "store_ok s3" by (simp add: store_ok_def)
  from r f gl p obtain u s4 where ia: "insert_all self (lists s3 nc) s3 = Inr (u, s4)"
    by (auto simp: resolve_def gather_more_comments_def split: sum.splits)
  have "\<forall>c \<in> set (lists s3 nc). c < next_obj s3" using so3 by (auto simp: store_ok_def)
  from insert_all_ok [OF ia so3 ho3 this] have so4: "store_ok s4" and ho4: "heap_ok s4 h1"
    by auto
  from r f gl p ia obtain u' where rm: "remove_item item s4 = Inr (u', s')" and h': "h' = h1"
    by (auto simp: resolve_def gather_more_comments_def split: sum.splits)
  from remove_item_ok [OF rm so4 ho4] h' show ?thesis by simp
qed

lemma step_ok:
  assumes st: "replace_more_step g fetch self threshold remaining h skipped s
                 = Some (Inr ((r', h', sk'), s'))"
    and so: "store_ok s" and ho: "heap_ok s h"
  shows "store_ok s' \<and> heap_ok s' h'"
proof -
  from st obtain item rest where pop: "heappop (more_lt s) h = Some (item, rest)"
    by (cases "heappop (more_lt s) h") (auto simp: replace_more_step_def)
  note hr = heap_ok_pop(1) [OF ho pop]
  show ?thesis
  proof (cases "skip_test s remaining threshold item")
    case True
    from st obtain u where "remove_item item s = Inr (u, s')" and "h' = rest"
      unfolding step_skip [OF pop True] by (auto split: sum.splits)
    with remove_item_ok [OF _ so hr] show ?thesis by simp
  next
    case False
    from st have "resolve g fetch self item rest s = Some (Inr (h', s'))"
      unfolding step_fetch [OF pop False] by (auto split: option.splits sum.splits)
    from resolve_ok [OF this so hr] show ?thesis .
  qed
qed

lemma gather_ok:
  assumes "gather_more_comments fuel tree pt s = Some (Inr (h, s'))" and "store_ok s"
  shows "store_ok s' \<and> heap_ok s' h"
proof -
  from assms(1) obtain t where t: "tree = Some t"
    and gl: "gather_loop fuel t pt (map (\<lambda>x. (None, x)) (lists s t)) [] s = Some (h, s')"
    by (cases tree) (auto simp: gather_more_comments_def)
  have "\<forall>qe \<in> set (map (\<lambda>x. (None, x)) (lists s t)). snd qe < next_obj s"
    using assms(2) by (auto simp: store_ok_def)
  from gather_loop_ok [OF gl assms(2) heap_ok_empty this] show ?thesis by simp
qed

lemma returned_SomeD: "returned r = Some v \<Longrightarrow> r = Some (Inr (v, final r))"
  by (auto simp: returned_def final_def outcome_state_def split: option.splits sum.splits)

section \<open>The forest of an answer\<close>










section \<open>Resolving every placeholder\<close>

lemma loop_ok_fetched [simp]: "loop_ok (s\<lparr>fetched := f\<rparr>) h = loop_ok s h"
  by (simp add: loop_ok_def store_ok_def pending_ok_def all_pending_def targets_ok_def
        index_ok_def is_more_def)



lemma holds_list_append [simp]: "holds (list_append s l c) a j = holds s a j"
  by (cases j) (auto simp: list_append_def)











section \<open>Properties of the forest operations\<close>

text \<open>
  C10: the length operation is total: it returns 0 for a forest whose comment sequence
  is unset and for one whose sequence is the empty list, and the number of top-level
  nodes otherwise.
\<close>

theorem len_total:
  "len s \<lparr>comments = None\<rparr> = 0
   \<and> len (s\<lparr>lists := (lists s)(l := [])\<rparr>) \<lparr>comments = Some l\<rparr> = 0
   \<and> len s \<lparr>comments = Some l\<rparr> = length (lists s l)"
  by (simp add: len_def)

text \<open>
  C4: inserting a node whose identity is already in the Identity Index raises
  DuplicateReplaceException, and the store at the raise is the store the insert was
  called in: nothing has been changed, nothing is dropped or merged silently.
\<close>

theorem insert_comment_duplicate:
  "name (objs s comment) \<in> dom (comments_by_id s)
   \<Longrightarrow> insert_comment self comment s = Inl (DuplicateReplaceException, s)"
  by (simp add: insert_comment_def)

theorem insert_comment_duplicate_witness:
  "name (objs s_dup 1) \<in> dom (comments_by_id s_dup)
   \<and> insert_comment \<lparr>comments = Some 2\<rparr> 1 s_dup = Inl (DuplicateReplaceException, s_dup)"
proof -
  have h: "name (objs s_dup 1) \<in> dom (comments_by_id s_dup)" by (simp add: s_dup_def)
  from h insert_comment_duplicate [OF h] show ?thesis by simp
qed

text \<open>
  C5, as stated, fails on two inputs. A comment that is not a root and names itself as
  its parent is registered by line 99 before line 103 looks its parent up, so the
  assertion holds and the comment is appended to its own replies. And when the
  comment's own identity is already indexed, line 98 raises DuplicateReplaceException
  before the parent is looked at.
\<close>

theorem insert_comment_missing_parent_counterexample:
  "\<not> is_more s_self 0 \<and> \<not> is_root (objs s_self 0)
   \<and> parent_id (objs s_self 0) \<notin> dom (comments_by_id s_self)
   \<and> insert_comment \<lparr>comments = Some 1\<rparr> 0 s_self
       = Inr ((), s_self\<lparr>objs := (objs s_self)(0 := Comment ''c1'' ''c1'' False 0 True),
                        lists := (lists s_self)(0 := [0]),
                        comments_by_id := [''c1'' \<mapsto> 0]\<rparr>)
   \<and> \<not> is_more s_dup_orphan 0 \<and> \<not> is_root (objs s_dup_orphan 0)
   \<and> parent_id (objs s_dup_orphan 0) \<notin> dom (comments_by_id s_dup_orphan)
   \<and> insert_comment \<lparr>comments = Some 1\<rparr> 0 s_dup_orphan
       = Inl (DuplicateReplaceException, s_dup_orphan)"
  by (simp add: s_self_def s_dup_orphan_def is_more_def insert_comment_def set_submission_def
        list_append_def)

text \<open>
  C5, amended: for a comment that is not a root, whose own identity is not yet indexed,
  and whose parent identity is neither indexed nor its own identity, the insert raises
  the assertion failure with the diagnostic message; at the raise the comment has been
  attached to the discussion (line 99) and no list has changed, so the comment has not
  been appended anywhere. When the parent identity is indexed, the assertion failure is
  not raised.
\<close>

theorem insert_comment_missing_parent:
  assumes "objs s comment = Comment n p False l sb"
  shows "(n \<notin> dom (comments_by_id s) \<and> p \<notin> dom (comments_by_id s) \<and> p \<noteq> n \<longrightarrow>
            insert_comment self comment s
              = Inl (AssertionError assert_message, set_submission s comment)
            \<and> lists (set_submission s comment) = lists s)
         \<and> (p \<in> dom (comments_by_id s) \<longrightarrow>
            (\<forall>msg s'. insert_comment self comment s \<noteq> Inl (AssertionError msg, s')))"
  using assms
  by (auto simp: insert_comment_def set_submission_def Let_def split: node.splits option.splits)

theorem insert_comment_missing_parent_witness:
  "insert_comment \<lparr>comments = Some 1\<rparr> 0 s_orphan
     = Inl (AssertionError assert_message, set_submission s_orphan 0)
   \<and> lists (set_submission s_orphan 0) = lists s_orphan
   \<and> (\<forall>msg s'. insert_comment \<lparr>comments = Some 1\<rparr> 0
                    (s_orphan\<lparr>comments_by_id := [''c1'' \<mapsto> 1]\<rparr>)
                  \<noteq> Inl (AssertionError msg, s'))"
proof -
  have a: "objs s_orphan 0 = Comment ''c2'' ''c1'' False 0 False" by (simp add: s_orphan_def)
  have b: "''c2'' \<notin> dom (comments_by_id s_orphan) \<and> ''c1'' \<notin> dom (comments_by_id s_orphan)
           \<and> ''c1'' \<noteq> ''c2''"
    by (simp add: s_orphan_def)
  have a': "objs (s_orphan\<lparr>comments_by_id := [''c1'' \<mapsto> 1]\<rparr>) 0 = Comment ''c2'' ''c1'' False 0 False"
    by (simp add: s_orphan_def)
  have b': "''c1'' \<in> dom (comments_by_id (s_orphan\<lparr>comments_by_id := [''c1'' \<mapsto> 1]\<rparr>))"
    by simp
  from insert_comment_missing_parent [OF a, of "\<lparr>comments = Some 1\<rparr>"] b
       insert_comment_missing_parent [OF a', of "\<lparr>comments = Some 1\<rparr>"] b'
  show ?thesis by blast
qed

section \<open>Properties of one turn of the loop\<close>




section \<open>Properties of the flattening\<close>

text \<open>
  C7: for a store that holds a forest \<open>ts\<close> under the list \<open>l\<close>, the flattening
  returns (with fuel beyond the number of nodes) the nodes of the forest level by level;
  these are exactly the nodes reached from the top-level list by walking from a comment
  to its replies, never entering a placeholder; their number is the number of nodes of the
  forest; and the store after the call is the store before it.
\<close>

theorem list_flat_complete:
  assumes "forest_at s l ts" and "sum_list (map count_nodes ts) < fuel"
  shows "list_flat fuel \<lparr>comments = Some l\<rparr> s = Some (Inr (bfs ts, s))
         \<and> set (bfs ts) = reach s (set (lists s l))
         \<and> length (bfs ts) = sum_list (map count_nodes ts)"
proof -
  from assms have l: "lists s l = map root_addr ts" and t: "\<forall>t \<in> set ts. tree_at s t"
    by (auto simp: forest_at_def)
  from list_loop_bfs [OF t assms(2), of "[]"] l
  have ll: "list_loop fuel s (lists s l) [] = Some (bfs ts)" by simp
  from list_loop_reach [OF ll] have "set (bfs ts) = reach s (set (lists s l))" by simp
  with ll show ?thesis by (simp add: list_flat_def length_bfs)
qed

theorem list_flat_complete_witness:
  "forest_at s_flat 0 t_flat
   \<and> list_flat 4 \<lparr>comments = Some 0\<rparr> s_flat = Some (Inr ([0, 1, 2], s_flat))
   \<and> reach s_flat (set (lists s_flat 0)) = {0, 1, 2}"
proof -
  have f: "forest_at s_flat 0 t_flat"
    by (simp add: forest_at_def s_flat_def t_flat_def is_more_def)
  have n: "sum_list (map count_nodes t_flat) < 4" by (simp add: t_flat_def)
  have b: "bfs t_flat = [0, 1, 2]" by (simp add: t_flat_def)
  from list_flat_complete [OF f n] f b show ?thesis by auto
qed

section \<open>Properties of replace\_more\<close>

text \<open>
  C2: with a limit \<open>n\<close> that is not None, whatever way the call ends (a return or a
  raise), the collaborator has been called at most \<open>n\<close> times: the log of fetches has
  grown by at most \<open>n\<close> entries (by none when \<open>n\<close> is not positive). With limit 0
  on a store that holds a forest whose nodes are pairwise distinct objects, the call
  returns, the collaborator has not been called, no object has been created and no
  identity registered, every list keeps its comments, the heap is empty at the end and the
  result is the list \<open>skipped\<close>, which holds exactly the placeholders the forest held.
\<close>

theorem replace_more_budget:
  "(\<forall>out. replace_more fuel fetch self (Some n) threshold s = Some out \<longrightarrow>
      (\<exists>calls. fetched (outcome_state out) = fetched s @ calls \<and> length calls \<le> nat n))
   \<and> (forest_at s l ts \<and> distinct (bfs ts) \<and> sum_list (map count_nodes ts) < fuel \<longrightarrow>
      (\<exists>skipped s'.
         replace_more_run fuel fetch \<lparr>comments = Some l\<rparr> (Some 0) threshold s
           = Some (Inr (([], skipped), s'))
         \<and> replace_more fuel fetch \<lparr>comments = Some l\<rparr> (Some 0) threshold s
           = Some (Inr (skipped, s'))
         \<and> mset skipped = mset (filter (is_more s) (bfs ts))
         \<and> fetched s' = fetched s \<and> next_obj s' = next_obj s
         \<and> comments_by_id s' = comments_by_id s
         \<and> (\<forall>k. filter (\<lambda>a. \<not> is_more s a) (lists s' k)
                  = filter (\<lambda>a. \<not> is_more s a) (lists s k))))"
proof (intro conjI allI impI)
  fix out assume "replace_more fuel fetch self (Some n) threshold s = Some out"
  from replace_more_of_run [OF this] obtain out' where
    "replace_more_run fuel fetch self (Some n) threshold s = Some out'"
    "outcome_state out = outcome_state out'" by blast
  with run_fetch_bound [of fuel fetch self n threshold s out']
  show "\<exists>calls. fetched (outcome_state out) = fetched s @ calls \<and> length calls \<le> nat n"
    by simp
next
  assume "forest_at s l ts \<and> distinct (bfs ts) \<and> sum_list (map count_nodes ts) < fuel"
  then have a: "forest_at s l ts" "distinct (bfs ts)" "sum_list (map count_nodes ts) < fuel"
    by auto
  from run_limit0 [OF a, of fetch threshold] obtain skipped s' where
    r: "replace_more_run fuel fetch \<lparr>comments = Some l\<rparr> (Some 0) threshold s
             = Some (Inr (([], skipped), s'))"
       "mset skipped = mset (filter (is_more s) (bfs ts))"
       "fetched s' = fetched s" "next_obj s' = next_obj s"
       "comments_by_id s' = comments_by_id s"
       "\<forall>k. filter (\<lambda>a. \<not> is_more s a) (lists s' k) = filter (\<lambda>a. \<not> is_more s a) (lists s k)"
    by blast
  from r(1) have "replace_more fuel fetch \<lparr>comments = Some l\<rparr> (Some 0) threshold s
           = Some (Inr (skipped, s'))"
    by (simp add: replace_more_def)
  with r show "\<exists>skipped s'.
         replace_more_run fuel fetch \<lparr>comments = Some l\<rparr> (Some 0) threshold s
           = Some (Inr (([], skipped), s'))
         \<and> replace_more fuel fetch \<lparr>comments = Some l\<rparr> (Some 0) threshold s
           = Some (Inr (skipped, s'))
         \<and> mset skipped = mset (filter (is_more s) (bfs ts))
         \<and> fetched s' = fetched s \<and> next_obj s' = next_obj s
         \<and> comments_by_id s' = comments_by_id s
         \<and> (\<forall>k. filter (\<lambda>a. \<not> is_more s a) (lists s' k)
                  = filter (\<lambda>a. \<not> is_more s a) (lists s k))"
    by blast
qed


theorem replace_more_budget_witness:
  "(\<exists>calls. fetched (outcome_state
              (the (replace_more 4 one_comment \<lparr>comments = Some 0\<rparr> (Some 1) 0 s_flat)))
            = fetched s_flat @ calls \<and> length calls \<le> nat 1)
   \<and> forest_at s_flat 0 t_flat \<and> distinct (bfs t_flat)
   \<and> sum_list (map count_nodes t_flat) < 4
   \<and> (\<exists>skipped s'. replace_more 4 one_comment \<lparr>comments = Some 0\<rparr> (Some 0) 0 s_flat
                         = Some (Inr (skipped, s'))
          \<and> mset skipped = {#1, 2#} \<and> fetched s' = [])"
proof -
  have f: "forest_at s_flat 0 t_flat"
    by (simp add: forest_at_def s_flat_def t_flat_def is_more_def)
  have b: "bfs t_flat = [0, 1, 2]" by (simp add: t_flat_def)
  have d: "distinct (bfs t_flat)" by (simp add: b)
  have n: "sum_list (map count_nodes t_flat) < 4" by (simp add: t_flat_def)
  have p: "filter (is_more s_flat) (bfs t_flat) = [1, 2]"
    by (simp add: b s_flat_def is_more_def)
  have e: "replace_more 4 one_comment \<lparr>comments = Some 0\<rparr> (Some 1) 0 s_flat \<noteq> None"
    by code_simp
  note bud = replace_more_budget [of 4 one_comment "\<lparr>comments = Some 0\<rparr>" _ 0 s_flat 0 t_flat]
  from bud [of 1] e
  have 1: "\<exists>calls. fetched (outcome_state
              (the (replace_more 4 one_comment \<lparr>comments = Some 0\<rparr> (Some 1) 0 s_flat)))
            = fetched s_flat @ calls \<and> length calls \<le> nat 1"
    by auto
  from bud [of 0] f d n obtain skipped s' where
    r: "replace_more 4 one_comment \<lparr>comments = Some 0\<rparr> (Some 0) 0 s_flat
          = Some (Inr (skipped, s'))"
       "mset skipped = mset (filter (is_more s_flat) (bfs t_flat))"
       "fetched s' = fetched s_flat"
    by blast
  have "fetched s_flat = []" by (simp add: s_flat_def)
  with r p
  have 2: "\<exists>skipped s'. replace_more 4 one_comment \<lparr>comments = Some 0\<rparr> (Some 0) 0 s_flat
                         = Some (Inr (skipped, s'))
          \<and> mset skipped = {#1, 2#} \<and> fetched s' = []"
    by (intro exI [of _ skipped] exI [of _ s']) simp
  from 1 f d n 2 show ?thesis by blast
qed

section \<open>The removal target of a nested placeholder\<close>

text \<open>
  C8 fails on the store \<open>s_away\<close> with the collaborator \<open>away\<close>. The first fetch
  puts its comment under \<open>y\<close>, outside the forest, and the forest's own list is left
  empty when the fetched placeholder has been removed. The second fetch, on \<open>m2\<close>,
  returns the placeholder \<open>m3\<close> (object 4) at the top level of its answer (list 4).
  In the nested gather \<^verbatim>\<open>parent_tree or tree\<close> finds the forest's list empty and takes
  the fetched list: the removal target of \<open>m3\<close> is list 4 and not the forest's list 0.
  \<open>m3\<close> is then inserted into the forest's list, fetched in its turn, and removed from
  list 4, so that it stays in the forest.
\<close>

theorem nested_target_outside_forest:
  "returned (replace_more 9 away \<lparr>comments = Some 0\<rparr> None 0 s_away) = Some []
   \<and> fetched (final (replace_more 9 away \<lparr>comments = Some 0\<rparr> None 0 s_away)) = [1, 2, 4]
   \<and> objs (final (replace_more 9 away \<lparr>comments = Some 0\<rparr> None 0 s_away)) 4
       = MoreComments ''m3'' 1 [] (Some 4) True
   \<and> lists (final (replace_more 9 away \<lparr>comments = Some 0\<rparr> None 0 s_away)) 0 = [4]"
  by code_simp

text \<open>
  C9 fails on the same store with limit 2: the placeholder \<open>m3\<close> (object 4) is skipped
  and returned, it has been removed from the fetched list 4, and the forest's list 0 still
  holds it after the call.
\<close>

theorem returned_placeholder_stays:
  "returned (replace_more 9 away \<lparr>comments = Some 0\<rparr> (Some 2) 0 s_away) = Some [4]
   \<and> lists (final (replace_more 9 away \<lparr>comments = Some 0\<rparr> (Some 2) 0 s_away)) 0 = [4]
   \<and> lists (final (replace_more 9 away \<lparr>comments = Some 0\<rparr> (Some 2) 0 s_away)) 4 = []"
  by code_simp

section \<open>The order of the fetches\<close>

text \<open>
  C1, as stated, fails in two ways. On \<open>s_tie\<close> the four placeholders have equal
  counts and enter the heap in the order 0, 1, 2, 3; they are fetched in the order 0, 2,
  1, 3: heapq does not keep equal elements in insertion order. On \<open>s_nest\<close> the
  fetch on the placeholder with 5 pending children brings in one with 100, which is
  fetched after it: over a run the counts of the fetched placeholders need not descend.
\<close>

theorem fetch_order_counterexample:
  "returned (gather_more_comments 9 (Some 0) None s_tie) = Some [0, 1, 2, 3]
   \<and> returned (replace_more 9 no_children \<lparr>comments = Some 0\<rparr> None 0 s_tie) = Some []
   \<and> fetched (final (replace_more 9 no_children \<lparr>comments = Some 0\<rparr> None 0 s_tie))
       = [0, 2, 1, 3]
   \<and> returned (replace_more 9 bigger_inside \<lparr>comments = Some 0\<rparr> None 0 s_nest) = Some []
   \<and> fetched (final (replace_more 9 bigger_inside \<lparr>comments = Some 0\<rparr> None 0 s_nest)) = [0, 1]
   \<and> mcount (objs (final (replace_more 9 bigger_inside \<lparr>comments = Some 0\<rparr> None 0 s_nest)) 0) = 5
   \<and> mcount (objs (final (replace_more 9 bigger_inside \<lparr>comments = Some 0\<rparr> None 0 s_nest)) 1) = 100"
  by code_simp

text \<open>
  C1, amended: in every turn of the loop the placeholder that is popped, which is the one
  the collaborator is called on unless it is skipped (C3), has a pending child count at
  least as large as every placeholder in the priority collection at that moment. This
  is the heap property of the collection together with the fact that all its elements
  are placeholders: it holds after the gather that starts a run and every turn of the
  loop keeps it. Nothing is said about the order among equal counts.
\<close>

theorem fetch_largest_pending:
  assumes "store_ok s"
  shows "(\<forall>h0 s0. gather_more_comments fuel tree None s = Some (Inr (h0, s0))
            \<longrightarrow> store_ok s0 \<and> heap_ok s0 h0)
       \<and> (heap_ok s h \<longrightarrow>
            (\<forall>item rest. heappop (more_lt s) h = Some (item, rest)
               \<longrightarrow> (\<forall>b \<in> set h. mcount (objs s b) \<le> mcount (objs s item)))
            \<and> (\<forall>r' h' sk' s'.
                 replace_more_step g fetch self threshold remaining h skipped s
                   = Some (Inr ((r', h', sk'), s'))
                 \<longrightarrow> store_ok s' \<and> heap_ok s' h'))"
proof (intro conjI allI impI)
  fix h0 s0 assume "gather_more_comments fuel tree None s = Some (Inr (h0, s0))"
  from gather_ok [OF this assms] show "store_ok s0" "heap_ok s0 h0" by simp_all
next
  fix item rest assume "heap_ok s h" "heappop (more_lt s) h = Some (item, rest)"
  then show "\<forall>b \<in> set h. mcount (objs s b) \<le> mcount (objs s item)"
    by (rule heap_ok_pop(2))
next
  fix r' h' sk' s'
  assume "heap_ok s h"
    "replace_more_step g fetch self threshold remaining h skipped s
       = Some (Inr ((r', h', sk'), s'))"
  from step_ok [OF this(2) assms this(1)] show "store_ok s'" "heap_ok s' h'" by simp_all
qed


theorem fetch_largest_pending_witness:
  "store_ok s_thr
   \<and> store_ok (final (gather_more_comments 3 (Some 0) None s_thr))
   \<and> heap_ok (final (gather_more_comments 3 (Some 0) None s_thr)) [1, 0]
   \<and> heap_ok s_thr [1, 0]
   \<and> heappop (more_lt s_thr) [1, 0] = Some (1, [0])
   \<and> mcount (objs s_thr 0) \<le> mcount (objs s_thr 1)
   \<and> heap_ok (final (replace_more_step 5 no_children \<lparr>comments = Some 0\<rparr> 0 None [1, 0] []
                        s_thr)) [0]"
proof -
  have so: "store_ok s_thr" by (simp add: store_ok_def s_thr_def)
  have ho: "heap_ok s_thr [1, 0]"
    by (auto simp: heap_ok_def heap_inv_def s_thr_def is_more_def less_Suc_eq numeral_2_eq_2)
  have pop: "heappop (more_lt s_thr) [1, 0] = Some (1, [0])" by code_simp
  have "returned (gather_more_comments 3 (Some 0) None s_thr) = Some [1, 0]" by code_simp
  note g = returned_SomeD [OF this]
  have "returned (replace_more_step 5 no_children \<lparr>comments = Some 0\<rparr> 0 None [1, 0] [] s_thr)
        = Some (None, [0], [])" by code_simp
  note st = returned_SomeD [OF this]
  note t = fetch_largest_pending [OF so, of 3 "Some 0" "[1, 0]" 5 no_children
      "\<lparr>comments = Some 0\<rparr>" 0 None "[]"]
  from t g have 1: "store_ok (final (gather_more_comments 3 (Some 0) None s_thr))
      \<and> heap_ok (final (gather_more_comments 3 (Some 0) None s_thr)) [1, 0]" by blast
  from t ho pop have 2: "mcount (objs s_thr 0) \<le> mcount (objs s_thr 1)" by auto
  from t ho st have 3: "heap_ok (final (replace_more_step 5 no_children \<lparr>comments = Some 0\<rparr> 0
      None [1, 0] [] s_thr)) [0]" by blast
  from so 1 ho pop 2 3 show ?thesis by blast
qed

section \<open>Full resolution\<close>




end
